theory Spec2Isabelle
  imports Main
begin

section \<open>The 2048 game: grid, move resolution, spawning, game-over detection\<close>

text \<open>
  A shallow embedding of the core of \<^verbatim>\<open>2048game.py\<close>: the classes \<^verbatim>\<open>GameState\<close> and
  \<^verbatim>\<open>GameSession\<close> without the drawing code. Python integers are \<^typ>\<open>int\<close>, a cell
  is \<^typ>\<open>int option\<close> (\<^verbatim>\<open>None\<close> is the empty cell), mutation is state passing, and
  every exception the code can raise is a value of \<open>error\<close>.
\<close>

subsection \<open>Data model\<close>

datatype Move = up | down | left | right

datatype error = AssertionError | IndexError | TypeError | ValueError

type_synonym cell = "int option"

record gamestate =
  size_g :: int
  data :: "cell list list"

record gamesession =
  gameState :: gamestate
  isGameOver :: bool

text \<open>\<^verbatim>\<open>range(n)\<close>: the integers \<open>0, ..., n - 1\<close> in ascending order.\<close>

definition range_py :: "int \<Rightarrow> int list" where
  "range_py n = [0..n - 1]"

text \<open>\<^verbatim>\<open>GameState.__init__\<close>: a \<open>size \<times> size\<close> array of \<^verbatim>\<open>None\<close>.\<close>

definition GameState_init :: "int \<Rightarrow> gamestate" where
  "GameState_init n =
     \<lparr>size_g = n, data = map (\<lambda>y. map (\<lambda>x. None) (range_py n)) (range_py n)\<rparr>"

text \<open>
  \<^verbatim>\<open>GameState.getItem\<close>: the assertion, then \<^verbatim>\<open>self.data[y][x]\<close>. After the assertion
  both indices are non-negative, so Python's indexing raises \<^verbatim>\<open>IndexError\<close> exactly when
  an index reaches the length of its list.
\<close>

definition getItem :: "gamestate \<Rightarrow> int \<Rightarrow> int \<Rightarrow> error + cell" where
  "getItem g x y =
     (if \<not> (x \<in> set (range_py (size_g g)) \<and> y \<in> set (range_py (size_g g))) then Inl AssertionError
      else if nat y < length (data g) \<and> nat x < length (data g ! nat y)
      then Inr (data g ! nat y ! nat x)
      else Inl IndexError)"

text \<open>\<^verbatim>\<open>GameState.setItem\<close>: the assertion, then \<^verbatim>\<open>self.data[y][x] = newVal\<close>.\<close>

definition setItem :: "gamestate \<Rightarrow> int \<Rightarrow> int \<Rightarrow> cell \<Rightarrow> error + gamestate" where
  "setItem g x y newVal =
     (if \<not> (x \<in> set (range_py (size_g g)) \<and> y \<in> set (range_py (size_g g))) then Inl AssertionError
      else if nat y < length (data g) \<and> nat x < length (data g ! nat y)
      then Inr (g\<lparr>data := (data g)[nat y := (data g ! nat y)[nat x := newVal]]\<rparr>)
      else Inl IndexError)"

subsection \<open>Sequencing of operations that may raise\<close>

definition bindE :: "error + 'a \<Rightarrow> ('a \<Rightarrow> error + 'b) \<Rightarrow> error + 'b" where
  "bindE r f = (case r of Inl e \<Rightarrow> Inl e | Inr v \<Rightarrow> f v)"

text \<open>
  A loop of the source may also run forever: a computation that contains one returns an
  \<open>option\<close>, with \<open>None\<close> for "does not return".
\<close>

definition bindP :: "(error + 'a) option \<Rightarrow> ('a \<Rightarrow> (error + 'b) option) \<Rightarrow> (error + 'b) option" where
  "bindP r f = (case r of None \<Rightarrow> None | Some (Inl e) \<Rightarrow> Some (Inl e) | Some (Inr v) \<Rightarrow> f v)"

text \<open>A \<^verbatim>\<open>for\<close> loop over a list, threading the state through the body.\<close>

fun forE :: "'a list \<Rightarrow> ('a \<Rightarrow> 's \<Rightarrow> error + 's) \<Rightarrow> 's \<Rightarrow> error + 's" where
  "forE [] body s = Inr s"
| "forE (c # cs) body s = bindE (body c s) (forE cs body)"

text \<open>
  The coordinates \<open>(x, y)\<close> in the order of \<^verbatim>\<open>for y in range(n): for x in range(n)\<close>
  (the scans of \<^verbatim>\<open>__eq__\<close> and \<^verbatim>\<open>moveAllItemsInDir\<close>), and in the order of the
  comprehensions \<^verbatim>\<open>for x in range(n) for y in range(n)\<close> of \<^verbatim>\<open>nextMove\<close> and
  \<^verbatim>\<open>checkIfGameOver\<close>.
\<close>

definition cells_yx :: "int \<Rightarrow> (int \<times> int) list" where
  "cells_yx n = [(x, y). y \<leftarrow> range_py n, x \<leftarrow> range_py n]"

definition cells_xy :: "int \<Rightarrow> (int \<times> int) list" where
  "cells_xy n = [(x, y). x \<leftarrow> range_py n, y \<leftarrow> range_py n]"

text \<open>The list \<^verbatim>\<open>[state.getItem(x, y) for ...]\<close> of a comprehension.\<close>

fun getItems :: "gamestate \<Rightarrow> (int \<times> int) list \<Rightarrow> error + cell list" where
  "getItems g [] = Inr []"
| "getItems g (c # cs) =
     bindE (getItem g (fst c) (snd c)) (\<lambda>v. bindE (getItems g cs) (\<lambda>vs. Inr (v # vs)))"

subsection \<open>\<^verbatim>\<open>GameState.__eq__\<close>\<close>

fun eq_scan :: "gamestate \<Rightarrow> gamestate \<Rightarrow> (int \<times> int) list \<Rightarrow> error + bool" where
  "eq_scan self other [] = Inr True"
| "eq_scan self other (c # cs) =
     bindE (getItem self (fst c) (snd c)) (\<lambda>u.
     bindE (getItem other (fst c) (snd c)) (\<lambda>v.
       if u \<noteq> v then Inr False else eq_scan self other cs))"

definition GameState_eq :: "gamestate \<Rightarrow> gamestate \<Rightarrow> error + bool" where
  "GameState_eq self other =
     (if size_g self \<noteq> size_g other then Inr False
      else eq_scan self other (cells_yx (size_g self)))"

subsection \<open>\<^verbatim>\<open>GameSession\<close>: move resolution\<close>

definition GameSession_init :: "int \<Rightarrow> gamesession" where
  "GameSession_init n = \<lparr>gameState = GameState_init n, isGameOver = False\<rparr>"

text \<open>\<^verbatim>\<open>startVal+endVal\<close>: Python adds two integers and raises on \<^verbatim>\<open>None\<close>.\<close>

fun plus_cell :: "cell \<Rightarrow> cell \<Rightarrow> error + cell" where
  "plus_cell (Some a) (Some b) = Inr (Some (a + b))"
| "plus_cell _ _ = Inl TypeError"

definition shiftOneItemTo :: "gamesession \<Rightarrow> int \<times> int \<Rightarrow> int \<times> int \<Rightarrow> error + gamesession" where
  "shiftOneItemTo s startCoords endCoords =
     bindE (getItem (gameState s) (fst startCoords) (snd startCoords)) (\<lambda>startVal.
     bindE (getItem (gameState s) (fst endCoords) (snd endCoords)) (\<lambda>endVal.
       if endVal = None then
         bindE (setItem (gameState s) (fst endCoords) (snd endCoords) startVal) (\<lambda>g1.
         bindE (setItem g1 (fst startCoords) (snd startCoords) None) (\<lambda>g2.
           Inr (s\<lparr>gameState := g2\<rparr>)))
       else if startVal = endVal then
         bindE (plus_cell startVal endVal) (\<lambda>v.
         bindE (setItem (gameState s) (fst endCoords) (snd endCoords) v) (\<lambda>g1.
         bindE (setItem g1 (fst startCoords) (snd startCoords) None) (\<lambda>g2.
           Inr (s\<lparr>gameState := g2\<rparr>))))
       else Inr s))"

text \<open>The body of the two nested \<^verbatim>\<open>for\<close> loops of \<^verbatim>\<open>moveAllItemsInDir\<close>, at one cell.\<close>

definition moveItem :: "Move \<Rightarrow> int \<times> int \<Rightarrow> gamesession \<Rightarrow> error + gamesession" where
  "moveItem move c s =
     (let x = fst c; y = snd c in
      bindE (getItem (gameState s) x y) (\<lambda>v.
        if v = None then Inr s
        else if move = up \<and> y > 0 then shiftOneItemTo s (x, y) (x, y - 1)
        else if move = down \<and> y < size_g (gameState s) - 1 then shiftOneItemTo s (x, y) (x, y + 1)
        else if move = left \<and> x > 0 then shiftOneItemTo s (x, y) (x - 1, y)
        else if move = right \<and> x < size_g (gameState s) - 1 then shiftOneItemTo s (x, y) (x + 1, y)
        else Inr s))"

text \<open>One pass: the \<^verbatim>\<open>for y ... for x ...\<close> scan of the whole grid.\<close>

definition movePass :: "Move \<Rightarrow> gamesession \<Rightarrow> error + gamesession" where
  "movePass move s = forE (cells_yx (size_g (gameState s))) (moveItem move) s"

text \<open>
  The \<^verbatim>\<open>while not self.gameState == lastState\<close> loop. \<^verbatim>\<open>copy.deepcopy\<close> of a value
  is the value. Nothing in the loop bounds the number of passes, so the loop is a partial
  function: \<open>None\<close> stands for a loop that never exits.
\<close>

partial_function (option) moveLoop :: "Move \<Rightarrow> gamesession \<Rightarrow> gamestate \<Rightarrow> (error + gamesession) option" where
  "moveLoop move s lastState =
     (case GameState_eq (gameState s) lastState of
        Inl e \<Rightarrow> Some (Inl e)
      | Inr same \<Rightarrow>
          if same then Some (Inr s)
          else (case movePass move s of
                  Inl e \<Rightarrow> Some (Inl e)
                | Inr s' \<Rightarrow> moveLoop move s' (gameState s)))"

declare moveLoop.simps [code]

definition moveAllItemsInDir :: "Move \<Rightarrow> gamesession \<Rightarrow> (error + gamesession) option" where
  "moveAllItemsInDir move s = moveLoop move s (GameState_init (size_g (gameState s)))"

subsection \<open>\<^verbatim>\<open>GameSession\<close>: spawning\<close>

text \<open>
  \<^verbatim>\<open>addNumToRandomPoint\<close>. The random generator is the list of the coordinate pairs it
  will draw, each pair the two results of \<^verbatim>\<open>random.randint(0, size-1)\<close> of one
  iteration; the loop has not exited (\<open>None\<close>) when the draws are used up. \<^verbatim>\<open>randint\<close>
  raises \<^verbatim>\<open>ValueError\<close> on an empty interval.
\<close>

fun addNumToRandomPoint :: "int \<Rightarrow> (int \<times> int) list \<Rightarrow> gamesession \<Rightarrow> (error + gamesession) option" where
  "addNumToRandomPoint val [] s = None"
| "addNumToRandomPoint val (d # draws) s =
     (if size_g (gameState s) - 1 < 0 then Some (Inl ValueError)
      else (case getItem (gameState s) (fst d) (snd d) of
              Inl e \<Rightarrow> Some (Inl e)
            | Inr v \<Rightarrow>
                if v = None then
                  (case setItem (gameState s) (fst d) (snd d) (Some val) of
                     Inl e \<Rightarrow> Some (Inl e)
                   | Inr g \<Rightarrow> Some (Inr (s\<lparr>gameState := g\<rparr>)))
                else addNumToRandomPoint val draws s))"

subsection \<open>\<^verbatim>\<open>GameSession\<close>: game-over detection and \<^verbatim>\<open>nextMove\<close>\<close>

text \<open>\<^verbatim>\<open>for i in range(len(movLs)): gameMoves[i].moveAllItemsInDir(movLs[i])\<close> on the copies.\<close>

fun simulateMoves :: "Move list \<Rightarrow> gamesession \<Rightarrow> (error + gamesession list) option" where
  "simulateMoves [] s = Some (Inr [])"
| "simulateMoves (m # ms) s =
     bindP (moveAllItemsInDir m s) (\<lambda>r.
     bindP (simulateMoves ms s) (\<lambda>rs. Some (Inr (r # rs))))"

text \<open>The list \<^verbatim>\<open>[self.gameState == x.gameState for x in gameMoves]\<close>.\<close>

fun compareAll :: "gamestate \<Rightarrow> gamesession list \<Rightarrow> error + bool list" where
  "compareAll g [] = Inr []"
| "compareAll g (x # xs) =
     bindE (GameState_eq g (gameState x)) (\<lambda>b. bindE (compareAll g xs) (\<lambda>bs. Inr (b # bs)))"

definition checkIfGameOver :: "gamesession \<Rightarrow> (error + gamesession) option" where
  "checkIfGameOver s0 =
     (let s = s0\<lparr>isGameOver := True\<rparr> in
      bindP (Some (getItems (gameState s) (cells_xy (size_g (gameState s))))) (\<lambda>vs.
      let isEmpty = list_all (\<lambda>v. v = None) vs;
          movLs = [up, down, left, right] in
      bindP (simulateMoves movLs s) (\<lambda>gameMoves.
        if isEmpty then Some (Inr (s\<lparr>isGameOver := False\<rparr>))
        else bindP (Some (compareAll (gameState s) gameMoves)) (\<lambda>bs.
          if \<not> list_all (\<lambda>b. b) bs then Some (Inr (s\<lparr>isGameOver := False\<rparr>))
          else Some (Inr s)))))"

definition nextMove :: "Move \<Rightarrow> (int \<times> int) list \<Rightarrow> gamesession \<Rightarrow> (error + gamesession) option" where
  "nextMove move draws s0 =
     bindP (moveAllItemsInDir move s0) (\<lambda>s1.
     bindP (checkIfGameOver s1) (\<lambda>s.
     bindP (Some (getItems (gameState s) (cells_xy (size_g (gameState s))))) (\<lambda>vs.
       let isFull = list_all (\<lambda>v. v \<noteq> None) vs in
       if \<not> isFull then addNumToRandomPoint 2 draws s else Some (Inr s))))"

section \<open>Vocabulary of the properties\<close>

text \<open>
  The grids that \<^verbatim>\<open>GameState.__init__\<close> builds and \<^verbatim>\<open>setItem\<close> maintains: \<open>size\<close> rows of
  \<open>size\<close> cells each.
\<close>

definition wellformed :: "gamestate \<Rightarrow> bool" where
  "wellformed g = (length (data g) = nat (size_g g) \<and> list_all (\<lambda>row. length row = nat (size_g g)) (data g))"

text \<open>The coordinates that pass the assertion of \<^verbatim>\<open>getItem\<close> and \<^verbatim>\<open>setItem\<close>.\<close>

definition in_range :: "gamestate \<Rightarrow> int \<times> int \<Rightarrow> bool" where
  "in_range g c = (0 \<le> fst c \<and> fst c < size_g g \<and> 0 \<le> snd c \<and> snd c < size_g g)"

text \<open>The content of a cell, \<^verbatim>\<open>self.data[y][x]\<close>, and the grid with one cell overwritten.\<close>

definition cell_at :: "gamestate \<Rightarrow> int \<times> int \<Rightarrow> cell" where
  "cell_at g c = data g ! nat (snd c) ! nat (fst c)"

definition put :: "gamestate \<Rightarrow> int \<times> int \<Rightarrow> cell \<Rightarrow> gamestate" where
  "put g c v = g\<lparr>data := (data g)[nat (snd c) := (data g ! nat (snd c))[nat (fst c) := v]]\<rparr>"

text \<open>The sum of the values of the non-empty cells of a grid.\<close>

fun cell_val :: "cell \<Rightarrow> int" where
  "cell_val None = 0"
| "cell_val (Some v) = v"

definition board_sum :: "gamestate \<Rightarrow> int" where
  "board_sum g = (\<Sum>c\<leftarrow>cells_yx (size_g g). cell_val (cell_at g c))"

text \<open>
  The potential of a grid for a direction: every tile counts one plus its distance to the
  edge the move pushes towards (tile count plus total displacement).
\<close>

fun dist :: "Move \<Rightarrow> int \<Rightarrow> int \<times> int \<Rightarrow> nat" where
  "dist up n (x, y) = nat y"
| "dist down n (x, y) = nat (n - 1 - y)"
| "dist left n (x, y) = nat x"
| "dist right n (x, y) = nat (n - 1 - x)"

definition weight :: "Move \<Rightarrow> gamestate \<Rightarrow> int \<times> int \<Rightarrow> nat" where
  "weight m g c = (case cell_at g c of None \<Rightarrow> 0 | Some v \<Rightarrow> 1 + dist m (size_g g) c)"

definition potential :: "Move \<Rightarrow> gamestate \<Rightarrow> nat" where
  "potential m g = (\<Sum>c\<leftarrow>cells_yx (size_g g). weight m g c)"

text \<open>The cell one step in the direction of a move.\<close>

fun neighbour :: "Move \<Rightarrow> int \<times> int \<Rightarrow> int \<times> int" where
  "neighbour up (x, y) = (x, y - 1)"
| "neighbour down (x, y) = (x, y + 1)"
| "neighbour left (x, y) = (x - 1, y)"
| "neighbour right (x, y) = (x + 1, y)"

text \<open>The grid after \<^verbatim>\<open>shiftOneItemTo\<close> has written \<open>v\<close> to \<open>q\<close> and cleared \<open>p\<close>.\<close>

definition shift_res :: "gamestate \<Rightarrow> int \<times> int \<Rightarrow> int \<times> int \<Rightarrow> cell \<Rightarrow> gamestate" where
  "shift_res g p q v = put (put g q v) p None"

text \<open>
  The scan does nothing at a cell that is empty, whose neighbour is outside the grid, or
  whose neighbour holds a different value.
\<close>

definition blocked :: "Move \<Rightarrow> gamestate \<Rightarrow> int \<times> int \<Rightarrow> bool" where
  "blocked m g c = (cell_at g c = None \<or> \<not> in_range g (neighbour m c) \<or>
      (cell_at g (neighbour m c) \<noteq> None \<and> cell_at g (neighbour m c) \<noteq> cell_at g c))"

text \<open>What one step of a pass keeps, and the progress it makes when it changes the grid.\<close>

definition step_ok :: "Move \<Rightarrow> gamestate \<Rightarrow> gamestate \<Rightarrow> bool" where
  "step_ok m g g' = (wellformed g' \<and> size_g g' = size_g g \<and> board_sum g' = board_sum g \<and>
      (g' = g \<or> potential m g' < potential m g))"

text \<open>A grid on which a pass in direction \<open>m\<close> changes nothing.\<close>

definition stable :: "Move \<Rightarrow> gamestate \<Rightarrow> bool" where
  "stable m g = list_all (blocked m g) (cells_yx (size_g g))"

text \<open>\<open>k\<close> passes in a row.\<close>

fun passes :: "nat \<Rightarrow> Move \<Rightarrow> gamesession \<Rightarrow> error + gamesession" where
  "passes 0 m s = Inr s"
| "passes (Suc k) m s = bindE (movePass m s) (passes k m)"

text \<open>The relation between a session and the result of its move resolution.\<close>

definition resolved :: "Move \<Rightarrow> gamesession \<Rightarrow> gamesession \<Rightarrow> bool" where
  "resolved m s r = (isGameOver r = isGameOver s \<and> wellformed (gameState r) \<and>
     size_g (gameState r) = size_g (gameState s) \<and> board_sum (gameState r) = board_sum (gameState s) \<and>
     potential m (gameState r) \<le> potential m (gameState s) \<and> stable m (gameState r) \<and>
     (stable m (gameState s) \<longrightarrow> r = s))"

text \<open>No cell is empty; every cell is empty.\<close>

definition no_empty :: "gamestate \<Rightarrow> bool" where
  "no_empty g = list_all (\<lambda>c. cell_at g c \<noteq> None) (cells_yx (size_g g))"

definition all_empty :: "gamestate \<Rightarrow> bool" where
  "all_empty g = list_all (\<lambda>c. cell_at g c = None) (cells_yx (size_g g))"

text \<open>
  Move resolution in direction \<open>m\<close> returns the grid it started from; no move of the four
  changes the grid.
\<close>

definition unchanged_by :: "Move \<Rightarrow> gamesession \<Rightarrow> bool" where
  "unchanged_by m s =
     (case moveAllItemsInDir m s of Some (Inr r) \<Rightarrow> gameState r = gameState s | _ \<Rightarrow> False)"

definition no_move_changes :: "gamesession \<Rightarrow> bool" where
  "no_move_changes s = list_all (\<lambda>m. unchanged_by m s) [up, down, left, right]"

text \<open>
  A sequence of \<^verbatim>\<open>nextMove\<close> calls, as the driver loop of \<^verbatim>\<open>main\<close> issues them, one for each
  key event, each with the draws of its spawn step.
\<close>

fun playMoves :: "(Move \<times> (int \<times> int) list) list \<Rightarrow> gamesession \<Rightarrow> (error + gamesession) option" where
  "playMoves [] s = Some (Inr s)"
| "playMoves (md # rest) s = bindP (nextMove (fst md) (snd md) s) (playMoves rest)"

section \<open>The store: objects, references and copies\<close>

text \<open>
  The functions above take a session as a value, and a copy of a value is the value. What
  \<^verbatim>\<open>checkIfGameOver\<close> does to the board depends on what its copies share with the original, so
  the methods it runs are written once more over an explicit store. An object is reached by a
  reference, a number; the references from \<open>lim\<close> on are unused. A row of a grid is a list
  object (\<open>rows\<close>); a \<^verbatim>\<open>GameState\<close> object holds \<^verbatim>\<open>size\<close> and, for \<^verbatim>\<open>data\<close>, the references of
  its rows (\<open>grids\<close>); a \<^verbatim>\<open>GameSession\<close> object holds the reference of its \<^verbatim>\<open>gameState\<close> and
  \<^verbatim>\<open>isGameOver\<close> (\<open>sessions\<close>).
\<close>

record heap =
  rows :: "nat \<Rightarrow> cell list"
  grids :: "nat \<Rightarrow> int \<times> nat list"
  sessions :: "nat \<Rightarrow> nat \<times> bool"
  lim :: nat

text \<open>
  \<^verbatim>\<open>self.gameState\<close> of a session object, the rows of a \<^verbatim>\<open>GameState\<close> object, and the value that
  object has in a store: the grid the value-level functions work on.
\<close>

definition gs :: "heap \<Rightarrow> nat \<Rightarrow> nat" where
  "gs h a = fst (sessions h a)"

definition rowrefs :: "heap \<Rightarrow> nat \<Rightarrow> nat list" where
  "rowrefs h ga = snd (grids h ga)"

definition grid_of :: "heap \<Rightarrow> nat \<Rightarrow> gamestate" where
  "grid_of h ga = \<lparr>size_g = fst (grids h ga), data = map (rows h) (snd (grids h ga))\<rparr>"

text \<open>
  Allocation: a new list object for every row, then the \<^verbatim>\<open>GameState\<close> object that refers to
  them. \<^verbatim>\<open>GameState.__init__\<close> and \<^verbatim>\<open>copy.deepcopy\<close> of a \<^verbatim>\<open>GameState\<close> object both build their
  result this way; \<^verbatim>\<open>copy.deepcopy\<close> of a session copies its \<^verbatim>\<open>GameState\<close> object and then the
  session object.
\<close>

fun alloc_rows :: "cell list list \<Rightarrow> heap \<Rightarrow> nat list \<times> heap" where
  "alloc_rows [] h = ([], h)"
| "alloc_rows (row # rest) h =
     (let r = lim h;
          h1 = h\<lparr>rows := (rows h)(r := row), lim := Suc r\<rparr>;
          (rs, h2) = alloc_rows rest h1
      in (r # rs, h2))"

definition alloc_grid :: "gamestate \<Rightarrow> heap \<Rightarrow> nat \<times> heap" where
  "alloc_grid g h =
     (let (rs, h1) = alloc_rows (data g) h;
          ga = lim h1
      in (ga, h1\<lparr>grids := (grids h1)(ga := (size_g g, rs)), lim := Suc ga\<rparr>))"

definition GameState_initH :: "int \<Rightarrow> heap \<Rightarrow> nat \<times> heap" where
  "GameState_initH n h = alloc_grid (GameState_init n) h"

definition deepcopy_grid :: "nat \<Rightarrow> heap \<Rightarrow> nat \<times> heap" where
  "deepcopy_grid ga h = alloc_grid (grid_of h ga) h"

definition deepcopy_session :: "nat \<Rightarrow> heap \<Rightarrow> nat \<times> heap" where
  "deepcopy_session a h =
     (let (ga, h1) = deepcopy_grid (gs h a) h;
          c = lim h1
      in (c, h1\<lparr>sessions := (sessions h1)(c := (ga, snd (sessions h a))), lim := Suc c\<rparr>))"

text \<open>
  \<^verbatim>\<open>getItem\<close> and \<^verbatim>\<open>setItem\<close> through a reference. \<^verbatim>\<open>self.data[y][x] = newVal\<close> overwrites the
  cell in the row object: every reference to that row sees the new value.
\<close>

definition getItemH :: "heap \<Rightarrow> nat \<Rightarrow> int \<Rightarrow> int \<Rightarrow> error + cell" where
  "getItemH h ga x y =
     (let n = fst (grids h ga); rs = snd (grids h ga) in
      if \<not> (x \<in> set (range_py n) \<and> y \<in> set (range_py n)) then Inl AssertionError
      else if nat y < length rs \<and> nat x < length (rows h (rs ! nat y))
      then Inr (rows h (rs ! nat y) ! nat x)
      else Inl IndexError)"

definition setItemH :: "heap \<Rightarrow> nat \<Rightarrow> int \<Rightarrow> int \<Rightarrow> cell \<Rightarrow> error + heap" where
  "setItemH h ga x y newVal =
     (let n = fst (grids h ga); rs = snd (grids h ga) in
      if \<not> (x \<in> set (range_py n) \<and> y \<in> set (range_py n)) then Inl AssertionError
      else if nat y < length rs \<and> nat x < length (rows h (rs ! nat y))
      then Inr (h\<lparr>rows := (rows h)(rs ! nat y := (rows h (rs ! nat y))[nat x := newVal])\<rparr>)
      else Inl IndexError)"

text \<open>The comprehension over \<^verbatim>\<open>getItem\<close> and \<^verbatim>\<open>__eq__\<close>, reading the store.\<close>

fun getItemsH :: "heap \<Rightarrow> nat \<Rightarrow> (int \<times> int) list \<Rightarrow> error + cell list" where
  "getItemsH h ga [] = Inr []"
| "getItemsH h ga (c # cs) =
     bindE (getItemH h ga (fst c) (snd c)) (\<lambda>v. bindE (getItemsH h ga cs) (\<lambda>vs. Inr (v # vs)))"

fun eq_scanH :: "heap \<Rightarrow> nat \<Rightarrow> nat \<Rightarrow> (int \<times> int) list \<Rightarrow> error + bool" where
  "eq_scanH h self other [] = Inr True"
| "eq_scanH h self other (c # cs) =
     bindE (getItemH h self (fst c) (snd c)) (\<lambda>u.
     bindE (getItemH h other (fst c) (snd c)) (\<lambda>v.
       if u \<noteq> v then Inr False else eq_scanH h self other cs))"

definition GameState_eqH :: "heap \<Rightarrow> nat \<Rightarrow> nat \<Rightarrow> error + bool" where
  "GameState_eqH h self other =
     (if fst (grids h self) \<noteq> fst (grids h other) then Inr False
      else eq_scanH h self other (cells_yx (fst (grids h self))))"

text \<open>
  \<^verbatim>\<open>shiftOneItemTo\<close>, the body of the scan, one pass and the loop of \<^verbatim>\<open>moveAllItemsInDir\<close>, on
  the session object \<open>a\<close>. \<^verbatim>\<open>lastState\<close> is a reference: to a new empty grid at first, then to
  the deep copy taken before each pass.
\<close>

definition shiftOneItemToH :: "nat \<Rightarrow> int \<times> int \<Rightarrow> int \<times> int \<Rightarrow> heap \<Rightarrow> error + heap" where
  "shiftOneItemToH a startCoords endCoords h =
     bindE (getItemH h (gs h a) (fst startCoords) (snd startCoords)) (\<lambda>startVal.
     bindE (getItemH h (gs h a) (fst endCoords) (snd endCoords)) (\<lambda>endVal.
       if endVal = None then
         bindE (setItemH h (gs h a) (fst endCoords) (snd endCoords) startVal) (\<lambda>h1.
           setItemH h1 (gs h1 a) (fst startCoords) (snd startCoords) None)
       else if startVal = endVal then
         bindE (plus_cell startVal endVal) (\<lambda>v.
         bindE (setItemH h (gs h a) (fst endCoords) (snd endCoords) v) (\<lambda>h1.
           setItemH h1 (gs h1 a) (fst startCoords) (snd startCoords) None))
       else Inr h))"

definition moveItemH :: "Move \<Rightarrow> nat \<Rightarrow> int \<times> int \<Rightarrow> heap \<Rightarrow> error + heap" where
  "moveItemH move a c h =
     (let x = fst c; y = snd c in
      bindE (getItemH h (gs h a) x y) (\<lambda>v.
        if v = None then Inr h
        else if move = up \<and> y > 0 then shiftOneItemToH a (x, y) (x, y - 1) h
        else if move = down \<and> y < fst (grids h (gs h a)) - 1 then shiftOneItemToH a (x, y) (x, y + 1) h
        else if move = left \<and> x > 0 then shiftOneItemToH a (x, y) (x - 1, y) h
        else if move = right \<and> x < fst (grids h (gs h a)) - 1 then shiftOneItemToH a (x, y) (x + 1, y) h
        else Inr h))"

definition movePassH :: "Move \<Rightarrow> nat \<Rightarrow> heap \<Rightarrow> error + heap" where
  "movePassH move a h = forE (cells_yx (fst (grids h (gs h a)))) (moveItemH move a) h"

partial_function (option) moveLoopH :: "Move \<Rightarrow> nat \<Rightarrow> heap \<Rightarrow> nat \<Rightarrow> (error + heap) option" where
  "moveLoopH move a h lastState =
     (case GameState_eqH h (gs h a) lastState of
        Inl e \<Rightarrow> Some (Inl e)
      | Inr same \<Rightarrow>
          if same then Some (Inr h)
          else (case deepcopy_grid (gs h a) h of
                  (lastState', h1) \<Rightarrow>
                    (case movePassH move a h1 of
                       Inl e \<Rightarrow> Some (Inl e)
                     | Inr h2 \<Rightarrow> moveLoopH move a h2 lastState')))"

declare moveLoopH.simps [code]

definition moveAllItemsInDirH :: "Move \<Rightarrow> nat \<Rightarrow> heap \<Rightarrow> (error + heap) option" where
  "moveAllItemsInDirH move a h =
     (case GameState_initH (fst (grids h (gs h a))) h of
        (lastState, h1) \<Rightarrow> moveLoopH move a h1 lastState)"

text \<open>
  \<^verbatim>\<open>gameMoves = [copy.deepcopy(self) for i in range(len(movLs))]\<close>, the moves on the copies,
  and the comparisons of \<^verbatim>\<open>self.gameState\<close> with the grids of the copies.
\<close>

fun copiesH :: "nat \<Rightarrow> nat \<Rightarrow> heap \<Rightarrow> nat list \<times> heap" where
  "copiesH 0 a h = ([], h)"
| "copiesH (Suc k) a h =
     (let (c, h1) = deepcopy_session a h;
          (cs, h2) = copiesH k a h1
      in (c # cs, h2))"

fun simulateMovesH :: "Move list \<Rightarrow> nat list \<Rightarrow> heap \<Rightarrow> (error + heap) option" where
  "simulateMovesH (m # ms) (c # cs) h = bindP (moveAllItemsInDirH m c h) (simulateMovesH ms cs)"
| "simulateMovesH _ _ h = Some (Inr h)"

fun compareAllH :: "heap \<Rightarrow> nat \<Rightarrow> nat list \<Rightarrow> error + bool list" where
  "compareAllH h a [] = Inr []"
| "compareAllH h a (x # xs) =
     bindE (GameState_eqH h (gs h a) (gs h x)) (\<lambda>b. bindE (compareAllH h a xs) (\<lambda>bs. Inr (b # bs)))"

text \<open>\<^verbatim>\<open>self.isGameOver = b\<close>, and \<^verbatim>\<open>checkIfGameOver\<close> on the session object \<open>a\<close>.\<close>

definition set_isGameOver :: "nat \<Rightarrow> bool \<Rightarrow> heap \<Rightarrow> heap" where
  "set_isGameOver a b h = h\<lparr>sessions := (sessions h)(a := (gs h a, b))\<rparr>"

definition checkIfGameOverH :: "nat \<Rightarrow> heap \<Rightarrow> (error + heap) option" where
  "checkIfGameOverH a h0 =
     (let h = set_isGameOver a True h0 in
      bindP (Some (getItemsH h (gs h a) (cells_xy (fst (grids h (gs h a)))))) (\<lambda>vs.
      let isEmpty = list_all (\<lambda>v. v = None) vs;
          movLs = [up, down, left, right] in
      case copiesH (length movLs) a h of
        (gameMoves, h1) \<Rightarrow>
          bindP (simulateMovesH movLs gameMoves h1) (\<lambda>h2.
            if isEmpty then Some (Inr (set_isGameOver a False h2))
            else bindP (Some (compareAllH h2 a gameMoves)) (\<lambda>bs.
              if \<not> list_all (\<lambda>b. b) bs then Some (Inr (set_isGameOver a False h2))
              else Some (Inr h2)))))"

text \<open>
  What a pass may change (rows in \<open>R\<close>, keeping their lengths), the same with allocation,
  and a \<^verbatim>\<open>GameState\<close> object that is allocated with its rows, no row twice.
\<close>

definition upd_only :: "nat set \<Rightarrow> heap \<Rightarrow> heap \<Rightarrow> bool" where
  "upd_only R h h' = (sessions h' = sessions h \<and> grids h' = grids h \<and> lim h' = lim h \<and>
     (\<forall>r. r \<notin> R \<longrightarrow> rows h' r = rows h r) \<and> (\<forall>r. length (rows h' r) = length (rows h r)))"

definition frame :: "nat set \<Rightarrow> heap \<Rightarrow> heap \<Rightarrow> bool" where
  "frame R h h' = (sessions h' = sessions h \<and> lim h \<le> lim h' \<and>
     (\<forall>r<lim h. grids h' r = grids h r) \<and>
     (\<forall>r<lim h. r \<notin> R \<longrightarrow> rows h' r = rows h r) \<and>
     (\<forall>r<lim h. length (rows h' r) = length (rows h r)))"

definition owns :: "heap \<Rightarrow> nat \<Rightarrow> bool" where
  "owns h ga = (ga < lim h \<and> distinct (rowrefs h ga) \<and> list_all (\<lambda>r. r < lim h) (rowrefs h ga))"

text \<open>
  A copy made after the store had \<open>L\<close> objects, and a store that agrees with an earlier one
  below \<open>L\<close>.
\<close>

definition copy_ok :: "nat \<Rightarrow> heap \<Rightarrow> nat \<Rightarrow> bool" where
  "copy_ok L h c = (c < lim h \<and> L \<le> gs h c \<and> owns h (gs h c) \<and>
     list_all (\<lambda>r. L \<le> r) (rowrefs h (gs h c)) \<and> wellformed (grid_of h (gs h c)))"

definition old_same :: "nat \<Rightarrow> heap \<Rightarrow> heap \<Rightarrow> bool" where
  "old_same L h h' = (lim h \<le> lim h' \<and>
     (\<forall>r<L. rows h' r = rows h r \<and> grids h' r = grids h r \<and> sessions h' r = sessions h r))"

text \<open>The rows of a list of sessions, and sessions whose rows are pairwise disjoint.\<close>

definition rows_of :: "heap \<Rightarrow> nat list \<Rightarrow> nat set" where
  "rows_of h cs = (\<Union>c\<in>set cs. set (rowrefs h (gs h c)))"

fun disjoint_rows :: "heap \<Rightarrow> nat list \<Rightarrow> bool" where
  "disjoint_rows h [] = True"
| "disjoint_rows h (c # cs) = (set (rowrefs h (gs h c)) \<inter> rows_of h cs = {} \<and> disjoint_rows h cs)"

text \<open>
  A store for examples: the rows 0 and 1 form the grid \<open>[[2, 4], [4, empty]]\<close> of the
  \<^verbatim>\<open>GameState\<close> object 2, and the sessions 3 and 4 both refer to it (4 shares the grid of 3, as a
  shallow copy would).
\<close>

definition example_heap :: heap where
  "example_heap =
     \<lparr>rows = (\<lambda>r. if r = 0 then [Some 2, Some 4] else if r = 1 then [Some 4, None] else []),
      grids = (\<lambda>r. (2, [0, 1])),
      sessions = (\<lambda>r. (2, False)),
      lim = 5\<rparr>"

section \<open>Properties of the grid operations and of move resolution\<close>

lemma range_py_iff: "x \<in> set (range_py n) \<longleftrightarrow> 0 \<le> x \<and> x < n"
  by (auto simp: range_py_def)

lemma wf_row: "wellformed g \<Longrightarrow> 0 \<le> y \<Longrightarrow> y < size_g g \<Longrightarrow> length (data g ! nat y) = nat (size_g g)"
  by (simp add: wellformed_def list_all_length)

lemma getItem_in: "wellformed g \<Longrightarrow> in_range g (x, y) \<Longrightarrow> getItem g x y = Inr (cell_at g (x, y))"
  by (simp add: getItem_def range_py_iff in_range_def cell_at_def wf_row) (simp add: wellformed_def)

lemma getItem_out: "\<not> in_range g (x, y) \<Longrightarrow> getItem g x y = Inl AssertionError"
  by (auto simp add: getItem_def range_py_iff in_range_def)

lemma setItem_in: "wellformed g \<Longrightarrow> in_range g (x, y) \<Longrightarrow> setItem g x y v = Inr (put g (x, y) v)"
  by (simp add: setItem_def range_py_iff in_range_def put_def wf_row) (simp add: wellformed_def)

lemma setItem_out: "\<not> in_range g (x, y) \<Longrightarrow> setItem g x y v = Inl AssertionError"
  by (auto simp add: setItem_def range_py_iff in_range_def)

lemma size_put [simp]: "size_g (put g c v) = size_g g"
  by (simp add: put_def)

lemma in_range_put [simp]: "in_range (put g c v) c' = in_range g c'"
  by (simp add: in_range_def)

lemma wf_put: "wellformed g \<Longrightarrow> wellformed (put g c v)"
  unfolding wellformed_def put_def list_all_length
  by (cases "nat (snd c) < length (data g)") (auto simp: nth_list_update)

lemma cell_put:
  "wellformed g \<Longrightarrow> in_range g c \<Longrightarrow> in_range g c' \<Longrightarrow>
   cell_at (put g c v) c' = (if c' = c then v else cell_at g c')"
  unfolding cell_at_def put_def in_range_def
  by (cases c; cases c') (auto simp: nth_list_update wf_row wellformed_def)

lemma gamestate_eqI:
  assumes "wellformed a" "wellformed b" "size_g a = size_g b"
    and "\<And>c. in_range a c \<Longrightarrow> cell_at a c = cell_at b c"
  shows "a = b"
proof -
  have "data a = data b"
  proof (rule nth_equalityI)
    show "length (data a) = length (data b)" using assms by (simp add: wellformed_def)
  next
    fix i assume i: "i < length (data a)"
    then have iy: "0 \<le> int i" "int i < size_g a" using assms(1) by (auto simp: wellformed_def)
    show "data a ! i = data b ! i"
    proof (rule nth_equalityI)
      show "length (data a ! i) = length (data b ! i)"
        using wf_row[OF assms(1) iy] wf_row[OF assms(2), of "int i"] iy assms(3) by simp
    next
      fix j assume "j < length (data a ! i)"
      then have "int j < size_g a" using wf_row[OF assms(1) iy] by simp
      then have "in_range a (int j, int i)" using iy by (simp add: in_range_def)
      from assms(4)[OF this] show "data a ! i ! j = data b ! i ! j" by (simp add: cell_at_def)
    qed
  qed
  then show ?thesis using assms(3) by simp
qed

lemma set_cells_yx: "set (cells_yx n) = {c. 0 \<le> fst c \<and> fst c < n \<and> 0 \<le> snd c \<and> snd c < n}"
  by (auto simp: cells_yx_def range_py_iff)

lemma set_cells_xy: "set (cells_xy n) = {c. 0 \<le> fst c \<and> fst c < n \<and> 0 \<le> snd c \<and> snd c < n}"
  by (auto simp: cells_xy_def range_py_iff)

lemma distinct_pairs:
  "distinct xs \<Longrightarrow> distinct ys \<Longrightarrow> distinct (concat (map (\<lambda>y. map (\<lambda>x. (x, y)) xs) ys))"
  by (induction ys) (auto simp: distinct_map inj_on_def)

lemma distinct_cells_yx: "distinct (cells_yx n)"
  unfolding cells_yx_def range_py_def by (rule distinct_pairs) simp_all

lemma sum_list_two_points:
  fixes f f' :: "'a \<Rightarrow> 'b::comm_monoid_add"
  assumes d: "distinct cs" and p: "p \<in> set cs" and q: "q \<in> set cs" and pq: "p \<noteq> q"
    and same: "\<And>c. c \<in> set cs \<Longrightarrow> c \<noteq> p \<Longrightarrow> c \<noteq> q \<Longrightarrow> f' c = f c"
  shows "sum_list (map f' cs) + (f p + f q) = sum_list (map f cs) + (f' p + f' q)"
proof -
  let ?R = "set cs - {p} - {q}"
  have fin: "finite (set cs)" by simp
  have split: "sum h (set cs) = h p + (h q + sum h ?R)" for h :: "'a \<Rightarrow> 'b"
  proof -
    have "sum h (set cs) = h p + sum h (set cs - {p})" using p by (simp add: sum.remove)
    also have "sum h (set cs - {p}) = h q + sum h ?R"
      using q pq by (subst sum.remove[of _ q]) auto
    finally show ?thesis .
  qed
  have rest: "sum f' ?R = sum f ?R" by (rule sum.cong) (auto simp: same)
  have "sum_list (map f' cs) = sum f' (set cs)" "sum_list (map f cs) = sum f (set cs)"
    using d by (simp_all add: sum_list_distinct_conv_sum_set)
  then show ?thesis using split[of f] split[of f'] rest by (simp add: ac_simps)
qed

lemma in_range_cells: "in_range g c \<longleftrightarrow> c \<in> set (cells_yx (size_g g))"
  by (simp add: set_cells_yx in_range_def)

lemma bindE_Inr [simp]: "bindE (Inr v) f = f v"
  by (simp add: bindE_def)

lemma bindE_Inl [simp]: "bindE (Inl e) f = Inl e"
  by (simp add: bindE_def)

lemma wf_shift: "wellformed g \<Longrightarrow> wellformed (shift_res g p q v)"
  by (simp add: shift_res_def wf_put)

lemma size_shift [simp]: "size_g (shift_res g p q v) = size_g g"
  by (simp add: shift_res_def)

lemma cell_shift:
  "wellformed g \<Longrightarrow> in_range g p \<Longrightarrow> in_range g q \<Longrightarrow> in_range g c \<Longrightarrow>
   cell_at (shift_res g p q v) c = (if c = p then None else if c = q then v else cell_at g c)"
  by (simp add: shift_res_def cell_put wf_put)

lemma total_shift:
  assumes "wellformed g" "in_range g p" "in_range g q" "p \<noteq> q"
  shows "board_sum (shift_res g p q v) + (cell_val (cell_at g p) + cell_val (cell_at g q)) = board_sum g + cell_val v"
proof -
  have "sum_list (map (\<lambda>c. cell_val (cell_at (shift_res g p q v) c)) (cells_yx (size_g g)))
      + (cell_val (cell_at g p) + cell_val (cell_at g q))
    = sum_list (map (\<lambda>c. cell_val (cell_at g c)) (cells_yx (size_g g)))
      + (cell_val (cell_at (shift_res g p q v) p) + cell_val (cell_at (shift_res g p q v) q))"
    using assms
    by (intro sum_list_two_points distinct_cells_yx) (simp_all add: in_range_cells[symmetric] cell_shift)
  then show ?thesis using assms by (simp add: board_sum_def cell_shift)
qed

lemma potential_shift:
  assumes "wellformed g" "in_range g p" "in_range g q" "p \<noteq> q"
  shows "potential m (shift_res g p q v) + (weight m g p + weight m g q)
       = potential m g + (case v of None \<Rightarrow> 0 | Some u \<Rightarrow> 1 + dist m (size_g g) q)"
proof -
  have "sum_list (map (weight m (shift_res g p q v)) (cells_yx (size_g g)))
      + (weight m g p + weight m g q)
    = sum_list (map (weight m g) (cells_yx (size_g g)))
      + (weight m (shift_res g p q v) p + weight m (shift_res g p q v) q)"
    using assms
    by (intro sum_list_two_points distinct_cells_yx) (simp_all add: in_range_cells[symmetric] cell_shift weight_def split: option.splits)
  moreover have "weight m (shift_res g p q v) p = 0"
    using assms by (simp add: weight_def cell_shift)
  moreover have "weight m (shift_res g p q v) q = (case v of None \<Rightarrow> 0 | Some u \<Rightarrow> 1 + dist m (size_g g) q)"
    using assms by (simp add: weight_def cell_shift split: option.splits)
  ultimately show ?thesis by (simp add: potential_def)
qed

lemma dist_neighbour:
  "in_range g c \<Longrightarrow> in_range g (neighbour m c) \<Longrightarrow> Suc (dist m (size_g g) (neighbour m c)) = dist m (size_g g) c"
  by (cases c; cases m) (auto simp: in_range_def)

lemma neighbour_neq: "neighbour m c \<noteq> c"
  by (cases c; cases m) auto

lemma shiftOneItemTo_in:
  assumes "wellformed (gameState s)" "in_range (gameState s) p" "in_range (gameState s) q"
    and "cell_at (gameState s) p = Some a"
  shows "shiftOneItemTo s p q =
     Inr (if cell_at (gameState s) q = None then s\<lparr>gameState := shift_res (gameState s) p q (Some a)\<rparr>
          else if cell_at (gameState s) q = Some a then s\<lparr>gameState := shift_res (gameState s) p q (Some (a + a))\<rparr>
          else s)"
  using assms
  by (cases p; cases q)
     (auto simp: shiftOneItemTo_def getItem_in setItem_in wf_put shift_res_def)

lemma moveItem_in:
  assumes "wellformed (gameState s)" "in_range (gameState s) c"
  shows "moveItem m c s =
     (case cell_at (gameState s) c of None \<Rightarrow> Inr s
      | Some a \<Rightarrow> if in_range (gameState s) (neighbour m c) then shiftOneItemTo s c (neighbour m c) else Inr s)"
  using assms
  by (cases c; cases m) (auto simp: moveItem_def getItem_in Let_def in_range_def split: option.splits)

lemma moveItem_blocked:
  assumes "wellformed (gameState s)" "in_range (gameState s) c" "blocked m (gameState s) c"
  shows "moveItem m c s = Inr s"
  using assms by (auto simp: moveItem_in shiftOneItemTo_in blocked_def split: option.splits)

lemma moveItem_free:
  assumes w: "wellformed (gameState s)" and c: "in_range (gameState s) c" and nb: "\<not> blocked m (gameState s) c"
  shows "\<exists>g'. moveItem m c s = Inr (s\<lparr>gameState := g'\<rparr>) \<and> wellformed g' \<and> size_g g' = size_g (gameState s)
           \<and> board_sum g' = board_sum (gameState s) \<and> potential m g' < potential m (gameState s)"
proof -
  let ?g = "gameState s" and ?q = "neighbour m c"
  from nb obtain a where a: "cell_at ?g c = Some a" and q: "in_range ?g ?q"
    and qv: "cell_at ?g ?q = None \<or> cell_at ?g ?q = Some a"
    by (auto simp: blocked_def)
  have ne: "c \<noteq> ?q" using neighbour_neq[of m c] by simp
  from qv show ?thesis
  proof
    assume e: "cell_at ?g ?q = None"
    let ?g' = "shift_res ?g c ?q (Some a)"
    have "moveItem m c s = Inr (s\<lparr>gameState := ?g'\<rparr>)"
      using w c q a e by (simp add: moveItem_in shiftOneItemTo_in)
    moreover have "board_sum ?g' = board_sum ?g"
      using total_shift[OF w c q ne, of "Some a"] a e by simp
    moreover have "potential m ?g' < potential m ?g"
      using potential_shift[OF w c q ne, of m "Some a"] a e dist_neighbour[OF c q]
      by (simp add: weight_def)
    ultimately show ?thesis using wf_shift[OF w, of c ?q "Some a"]
      by (intro exI[of _ ?g']) simp
  next
    assume e: "cell_at ?g ?q = Some a"
    let ?g' = "shift_res ?g c ?q (Some (a + a))"
    have "moveItem m c s = Inr (s\<lparr>gameState := ?g'\<rparr>)"
      using w c q a e by (simp add: moveItem_in shiftOneItemTo_in)
    moreover have "board_sum ?g' = board_sum ?g"
      using total_shift[OF w c q ne, of "Some (a + a)"] a e by simp
    moreover have "potential m ?g' < potential m ?g"
      using potential_shift[OF w c q ne, of m "Some (a + a)"] a e
      by (simp add: weight_def)
    ultimately show ?thesis using wf_shift[OF w, of c ?q "Some (a + a)"]
      by (intro exI[of _ ?g']) simp
  qed
qed

lemma stable_iff: "stable m g \<longleftrightarrow> (\<forall>c. in_range g c \<longrightarrow> blocked m g c)"
  by (auto simp add: stable_def list_all_iff in_range_cells)

lemma forE_moveItem:
  assumes "wellformed (gameState s)" "\<forall>c\<in>set cs. in_range (gameState s) c"
  shows "\<exists>g'. forE cs (moveItem m) s = Inr (s\<lparr>gameState := g'\<rparr>) \<and> step_ok m (gameState s) g' \<and>
           (g' = gameState s \<longleftrightarrow> (\<forall>c\<in>set cs. blocked m (gameState s) c))"
  using assms
proof (induction cs arbitrary: s)
  case Nil
  have "forE [] (moveItem m) s = Inr (s\<lparr>gameState := gameState s\<rparr>)" by simp
  moreover have "step_ok m (gameState s) (gameState s)" using Nil.prems(1) by (simp add: step_ok_def)
  ultimately show ?case by (intro exI[of _ "gameState s"]) simp
next
  case (Cons c cs)
  let ?g = "gameState s"
  have c: "in_range ?g c" and cs: "\<forall>c\<in>set cs. in_range ?g c" using Cons.prems(2) by simp_all
  show ?case
  proof (cases "blocked m ?g c")
    case True
    have mi: "moveItem m c s = Inr s" by (rule moveItem_blocked[OF Cons.prems(1) c True])
    from Cons.IH[OF Cons.prems(1) cs] obtain g' where
      g': "forE cs (moveItem m) s = Inr (s\<lparr>gameState := g'\<rparr>)" "step_ok m ?g g'"
      "g' = ?g \<longleftrightarrow> (\<forall>c\<in>set cs. blocked m ?g c)" by blast
    have "forE (c # cs) (moveItem m) s = Inr (s\<lparr>gameState := g'\<rparr>)" using mi g'(1) by simp
    moreover have "g' = ?g \<longleftrightarrow> (\<forall>c\<in>set (c # cs). blocked m ?g c)" using g'(3) True by simp
    ultimately show ?thesis using g'(2) by blast
  next
    case False
    from moveItem_free[OF Cons.prems(1) c False] obtain g1 where
      g1: "moveItem m c s = Inr (s\<lparr>gameState := g1\<rparr>)" "wellformed g1" "size_g g1 = size_g ?g"
          "board_sum g1 = board_sum ?g" "potential m g1 < potential m ?g" by blast
    let ?s1 = "s\<lparr>gameState := g1\<rparr>"
    have w1: "wellformed (gameState ?s1)" using g1(2) by simp
    have cs1: "\<forall>c\<in>set cs. in_range (gameState ?s1) c"
      using cs g1(3) by (simp add: in_range_def)
    from Cons.IH[OF w1 cs1] obtain g' where
      g': "forE cs (moveItem m) ?s1 = Inr (?s1\<lparr>gameState := g'\<rparr>)" "step_ok m (gameState ?s1) g'" by blast
    from g'(2) have a: "wellformed g'" "size_g g' = size_g g1" "board_sum g' = board_sum g1"
        "g' = g1 \<or> potential m g' < potential m g1" by (simp_all add: step_ok_def)
    have lt: "potential m g' < potential m ?g" using a(4) g1(5) by auto
    have ne: "g' \<noteq> ?g" using lt by auto
    have ok: "step_ok m ?g g'"
      unfolding step_ok_def using a(1) a(2) a(3) g1(3) g1(4) lt by simp
    have "forE (c # cs) (moveItem m) s = Inr (s\<lparr>gameState := g'\<rparr>)" using g1(1) g'(1) by simp
    moreover have "g' = ?g \<longleftrightarrow> (\<forall>c\<in>set (c # cs). blocked m ?g c)" using ne False by simp
    ultimately show ?thesis using ok by blast
  qed
qed

lemma movePass_spec:
  assumes "wellformed (gameState s)"
  shows "\<exists>g'. movePass m s = Inr (s\<lparr>gameState := g'\<rparr>) \<and> step_ok m (gameState s) g' \<and>
           (g' = gameState s \<longleftrightarrow> stable m (gameState s))"
  unfolding movePass_def stable_def list_all_iff
  by (rule forE_moveItem[OF assms]) (simp add: in_range_cells)

lemma eq_scan_in:
  assumes "wellformed a" "wellformed b" "size_g a = size_g b" "\<forall>c\<in>set cs. in_range a c"
  shows "eq_scan a b cs = Inr (\<forall>c\<in>set cs. cell_at a c = cell_at b c)"
  using assms(4)
proof (induction cs)
  case Nil
  then show ?case by simp
next
  case (Cons c cs)
  then have "in_range a c" "in_range b c" using assms(3) by (simp_all add: in_range_def)
  then have "getItem a (fst c) (snd c) = Inr (cell_at a c)" "getItem b (fst c) (snd c) = Inr (cell_at b c)"
    using getItem_in[OF assms(1), of "fst c" "snd c"] getItem_in[OF assms(2), of "fst c" "snd c"] by simp_all
  then show ?case using Cons by auto
qed

lemma GameState_eq_wf:
  assumes "wellformed a" "wellformed b"
  shows "GameState_eq a b = Inr (a = b)"
proof (cases "size_g a = size_g b")
  case False
  then show ?thesis by (auto simp: GameState_eq_def)
next
  case True
  have "GameState_eq a b = Inr (\<forall>c\<in>set (cells_yx (size_g a)). cell_at a c = cell_at b c)"
    using True eq_scan_in[OF assms True, of "cells_yx (size_g a)"]
    by (simp add: GameState_eq_def in_range_cells)
  moreover have "(\<forall>c\<in>set (cells_yx (size_g a)). cell_at a c = cell_at b c) \<longleftrightarrow> a = b"
    using gamestate_eqI[OF assms True] by (auto simp: in_range_cells)
  ultimately show ?thesis by simp
qed

lemma wf_init: "wellformed (GameState_init n)"
  by (simp add: wellformed_def GameState_init_def range_py_def list_all_iff)

lemma cell_init: "in_range (GameState_init n) c \<Longrightarrow> cell_at (GameState_init n) c = None"
  by (simp add: in_range_def cell_at_def GameState_init_def range_py_def)

lemma stable_init: "stable m (GameState_init n)"
  by (simp add: stable_iff blocked_def cell_init)

lemma moveLoop_after_pass:
  assumes "wellformed (gameState s)" "movePass m s = Inr s1"
  shows "\<exists>k r. moveLoop m s1 (gameState s) = Some (Inr r) \<and> passes k m s = Inr r \<and>
           k \<le> potential m (gameState s) \<and> resolved m s r"
  using assms
proof (induction "potential m (gameState s)" arbitrary: s s1 rule: less_induct)
  case less
  let ?g = "gameState s"
  from movePass_spec[OF less.prems(1), of m] less.prems(2) obtain g1 where
    s1: "s1 = s\<lparr>gameState := g1\<rparr>" and ok: "step_ok m ?g g1" and st: "g1 = ?g \<longleftrightarrow> stable m ?g"
    by auto
  have w1: "wellformed (gameState s1)" using ok s1 by (simp add: step_ok_def)
  have eq: "GameState_eq (gameState s1) ?g = Inr (g1 = ?g)"
    using GameState_eq_wf[OF w1 less.prems(1)] s1 by simp
  show ?case
  proof (cases "g1 = ?g")
    case True
    then have "s1 = s" using s1 by simp
    then have "moveLoop m s1 ?g = Some (Inr s)" using eq True by (subst moveLoop.simps) simp
    moreover have "resolved m s s" using True st less.prems(1) by (simp add: resolved_def)
    moreover have "passes 0 m s = Inr s" by simp
    ultimately show ?thesis by blast
  next
    case False
    then have lt: "potential m (gameState s1) < potential m ?g" using ok s1 by (simp add: step_ok_def)
    from movePass_spec[OF w1, of m] obtain s2 where s2: "movePass m s1 = Inr s2" by blast
    from less.hyps[OF lt w1 s2] obtain k r where
      r: "moveLoop m s2 (gameState s1) = Some (Inr r)" "passes k m s1 = Inr r"
         "k \<le> potential m (gameState s1)" "resolved m s1 r" by blast
    have "moveLoop m s1 ?g = Some (Inr r)"
      using eq False s2 r(1) by (subst moveLoop.simps) simp
    moreover have "passes (Suc k) m s = Inr r" using less.prems(2) r(2) by simp
    moreover have "Suc k \<le> potential m ?g" using r(3) lt by simp
    moreover have "resolved m s r"
      using r(4) ok s1 st False lt by (auto simp: resolved_def step_ok_def)
    ultimately show ?thesis by blast
  qed
qed

lemma moveAllItemsInDir_spec:
  assumes "wellformed (gameState s)"
  shows "\<exists>k r. moveAllItemsInDir m s = Some (Inr r) \<and> passes k m s = Inr r \<and>
           k \<le> potential m (gameState s) \<and> resolved m s r"
proof -
  let ?g = "gameState s" and ?e = "GameState_init (size_g (gameState s))"
  have eq: "GameState_eq ?g ?e = Inr (?g = ?e)" by (rule GameState_eq_wf[OF assms wf_init])
  show ?thesis
  proof (cases "?g = ?e")
    case True
    then have "moveAllItemsInDir m s = Some (Inr s)"
      unfolding moveAllItemsInDir_def using eq by (subst moveLoop.simps) simp
    moreover have "stable m ?g" using stable_init[of m "size_g ?g"] True by simp
    then have "resolved m s s" using assms by (simp add: resolved_def)
    moreover have "passes 0 m s = Inr s" by simp
    ultimately show ?thesis by blast
  next
    case False
    from movePass_spec[OF assms, of m] obtain s1 where s1: "movePass m s = Inr s1" by blast
    have "moveAllItemsInDir m s = moveLoop m s1 ?g"
      unfolding moveAllItemsInDir_def using eq False s1 by (subst moveLoop.simps) simp
    then show ?thesis using moveLoop_after_pass[OF assms s1] by simp
  qed
qed

lemma bindP_simps [simp]:
  "bindP None f = None" "bindP (Some (Inl e)) f = Some (Inl e)" "bindP (Some (Inr v)) f = f v"
  by (simp_all add: bindP_def)

lemma getItems_in:
  assumes "wellformed g" "\<forall>c\<in>set cs. in_range g c"
  shows "getItems g cs = Inr (map (cell_at g) cs)"
  using assms(2)
proof (induction cs)
  case Nil
  then show ?case by simp
next
  case (Cons c cs)
  then have "getItem g (fst c) (snd c) = Inr (cell_at g c)"
    using getItem_in[OF assms(1), of "fst c" "snd c"] by simp
  then show ?case using Cons by simp
qed

lemma getItems_cells_xy:
  "wellformed g \<Longrightarrow> getItems g (cells_xy (size_g g)) = Inr (map (cell_at g) (cells_xy (size_g g)))"
  by (rule getItems_in) (simp_all add: set_cells_xy in_range_def)

lemma all_cells_xy: "list_all P (map (cell_at g) (cells_xy n)) = list_all (\<lambda>c. P (cell_at g c)) (cells_yx n)"
  by (simp add: list_all_iff set_cells_xy set_cells_yx)

lemma unchanged_by_stable:
  assumes "wellformed (gameState s)"
  shows "unchanged_by m s \<longleftrightarrow> stable m (gameState s)"
proof -
  from moveAllItemsInDir_spec[OF assms, of m] obtain r where
    r: "moveAllItemsInDir m s = Some (Inr r)" "resolved m s r" by blast
  have "gameState r = gameState s \<longleftrightarrow> stable m (gameState s)"
    using r(2) by (auto simp: resolved_def)
  then show ?thesis using r(1) by (simp add: unchanged_by_def)
qed

lemma simulateMoves_in:
  assumes "wellformed (gameState s)"
  shows "\<exists>rs. simulateMoves ms s = Some (Inr rs) \<and> list_all (\<lambda>r. wellformed (gameState r)) rs \<and>
           map (\<lambda>r. gameState s = gameState r) rs = map (\<lambda>m. unchanged_by m s) ms"
proof (induction ms)
  case Nil
  then show ?case by simp
next
  case (Cons m ms)
  then obtain rs where rs: "simulateMoves ms s = Some (Inr rs)" "list_all (\<lambda>r. wellformed (gameState r)) rs"
    "map (\<lambda>r. gameState s = gameState r) rs = map (\<lambda>m. unchanged_by m s) ms" by blast
  from moveAllItemsInDir_spec[OF assms, of m] obtain r where
    r: "moveAllItemsInDir m s = Some (Inr r)" "resolved m s r" by blast
  have "simulateMoves (m # ms) s = Some (Inr (r # rs))" using r(1) rs(1) by simp
  moreover have "wellformed (gameState r)" using r(2) by (simp add: resolved_def)
  moreover have "(gameState s = gameState r) = unchanged_by m s"
    using r(1) by (auto simp: unchanged_by_def)
  ultimately show ?case using rs(2) rs(3) by simp
qed

lemma compareAll_in:
  assumes "wellformed g" "list_all (\<lambda>r. wellformed (gameState r)) rs"
  shows "compareAll g rs = Inr (map (\<lambda>r. g = gameState r) rs)"
  using assms(2) by (induction rs) (simp_all add: GameState_eq_wf[OF assms(1)])

lemma checkIfGameOver_in:
  assumes "wellformed (gameState s)"
  shows "checkIfGameOver s = Some (Inr (s\<lparr>isGameOver := \<not> all_empty (gameState s) \<and> no_move_changes (s\<lparr>isGameOver := True\<rparr>)\<rparr>))"
proof -
  let ?s = "s\<lparr>isGameOver := True\<rparr>" and ?g = "gameState s"
  have w: "wellformed (gameState ?s)" using assms by simp
  from simulateMoves_in[OF w, of "[up, down, left, right]"] obtain rs where
    rs: "simulateMoves [up, down, left, right] ?s = Some (Inr rs)" "list_all (\<lambda>r. wellformed (gameState r)) rs"
    "map (\<lambda>r. gameState ?s = gameState r) rs = map (\<lambda>m. unchanged_by m ?s) [up, down, left, right]" by blast
  have cmp: "compareAll ?g rs = Inr (map (\<lambda>m. unchanged_by m ?s) [up, down, left, right])"
    using compareAll_in[OF assms rs(2)] rs(3) by simp
  have gi: "getItems ?g (cells_xy (size_g ?g)) = Inr (map (cell_at ?g) (cells_xy (size_g ?g)))"
    by (rule getItems_cells_xy[OF assms])
  have ae: "list_all (\<lambda>v. v = None) (map (cell_at ?g) (cells_xy (size_g ?g))) = all_empty ?g"
    by (simp add: all_cells_xy all_empty_def)
  have nm: "list_all (\<lambda>b. b) (map (\<lambda>m. unchanged_by m ?s) [up, down, left, right]) = no_move_changes ?s"
    by (simp add: no_move_changes_def)
  show ?thesis
    unfolding checkIfGameOver_def Let_def
    using gi rs(1) cmp ae nm by (cases "all_empty ?g"; cases "no_move_changes ?s") simp_all
qed

lemma no_move_changes_stable:
  assumes "wellformed (gameState s)"
  shows "no_move_changes s \<longleftrightarrow> (\<forall>m. stable m (gameState s))"
proof -
  have "(\<forall>m. stable m (gameState s)) \<longleftrightarrow>
        stable up (gameState s) \<and> stable down (gameState s) \<and> stable left (gameState s) \<and> stable right (gameState s)"
    by (metis Move.exhaust)
  then show ?thesis by (simp add: no_move_changes_def unchanged_by_stable[OF assms])
qed

lemma tile_spreads:
  assumes "stable m g" "in_range g c" "in_range g (neighbour m c)" "cell_at g c \<noteq> None"
  shows "cell_at g (neighbour m c) \<noteq> None"
proof -
  have "blocked m g c" using assms(1) assms(2) stable_iff[of m g] by blast
  then show ?thesis using assms(3) assms(4) by (simp add: blocked_def)
qed

lemma tiles_everywhere:
  assumes st: "\<forall>m. stable m g" and c0: "in_range g (x0, y0)" and t0: "cell_at g (x0, y0) \<noteq> None"
  shows "in_range g (x, y) \<Longrightarrow> cell_at g (x, y) \<noteq> None"
proof (induction "nat \<bar>x - x0\<bar> + nat \<bar>y - y0\<bar>" arbitrary: x y)
  case 0
  then have "x = x0" "y = y0" by simp_all
  then show ?case using t0 by simp
next
  case (Suc n)
  consider "x > x0" | "x < x0" | "x = x0" "y > y0" | "x = x0" "y < y0"
    using Suc.hyps(2) by fastforce
  then show ?case
  proof cases
    case 1
    have r: "in_range g (x - 1, y)" using 1 c0 Suc.prems by (simp add: in_range_def)
    have "n = nat \<bar>x - 1 - x0\<bar> + nat \<bar>y - y0\<bar>" using Suc.hyps(2) 1 by simp
    from Suc.hyps(1)[OF this r] tile_spreads[of right g "(x - 1, y)"] st r Suc.prems
    show ?thesis by simp
  next
    case 2
    have r: "in_range g (x + 1, y)" using 2 c0 Suc.prems by (simp add: in_range_def)
    have "n = nat \<bar>x + 1 - x0\<bar> + nat \<bar>y - y0\<bar>" using Suc.hyps(2) 2 by simp
    from Suc.hyps(1)[OF this r] tile_spreads[of left g "(x + 1, y)"] st r Suc.prems
    show ?thesis by simp
  next
    case 3
    have r: "in_range g (x, y - 1)" using 3 c0 Suc.prems by (simp add: in_range_def)
    have "n = nat \<bar>x - x0\<bar> + nat \<bar>y - 1 - y0\<bar>" using Suc.hyps(2) 3 by simp
    from Suc.hyps(1)[OF this r] tile_spreads[of down g "(x, y - 1)"] st r Suc.prems
    show ?thesis by simp
  next
    case 4
    have r: "in_range g (x, y + 1)" using 4 c0 Suc.prems by (simp add: in_range_def)
    have "n = nat \<bar>x - x0\<bar> + nat \<bar>y + 1 - y0\<bar>" using Suc.hyps(2) 4 by simp
    from Suc.hyps(1)[OF this r] tile_spreads[of up g "(x, y + 1)"] st r Suc.prems
    show ?thesis by simp
  qed
qed

lemma no_empty_iff: "no_empty g \<longleftrightarrow> (\<forall>c. in_range g c \<longrightarrow> cell_at g c \<noteq> None)"
  by (auto simp: no_empty_def list_all_iff in_range_cells)

lemma all_empty_iff: "all_empty g \<longleftrightarrow> (\<forall>c. in_range g c \<longrightarrow> cell_at g c = None)"
  by (auto simp: all_empty_def list_all_iff in_range_cells)

lemma stuck_not_empty_full:
  assumes "\<forall>m. stable m g" "\<not> all_empty g"
  shows "no_empty g"
proof -
  from assms(2) obtain x0 y0 where c0: "in_range g (x0, y0)" "cell_at g (x0, y0) \<noteq> None"
    by (auto simp: all_empty_iff)
  show ?thesis unfolding no_empty_iff
  proof (intro allI impI)
    fix c assume "in_range g c"
    then show "cell_at g c \<noteq> None"
      using tiles_everywhere[OF assms(1) c0, of "fst c" "snd c"] by simp
  qed
qed

lemma full_not_all_empty: "0 < size_g g \<Longrightarrow> no_empty g \<Longrightarrow> \<not> all_empty g"
proof -
  assume a: "0 < size_g g" "no_empty g"
  have r: "in_range g (0, 0)" using a(1) by (simp add: in_range_def)
  then have "cell_at g (0, 0) \<noteq> None" using a(2) by (simp add: no_empty_iff)
  then show ?thesis using r all_empty_iff[of g] by metis
qed

lemma flag_value:
  assumes "wellformed (gameState s)" "0 < size_g (gameState s)"
  shows "(\<not> all_empty (gameState s) \<and> no_move_changes (s\<lparr>isGameOver := True\<rparr>)) =
         (no_empty (gameState s) \<and> no_move_changes s)"
proof -
  let ?g = "gameState s"
  have "no_move_changes (s\<lparr>isGameOver := True\<rparr>) = no_move_changes s"
    using assms(1) by (simp add: no_move_changes_stable)
  moreover have "(\<not> all_empty ?g \<and> no_move_changes s) = (no_empty ?g \<and> no_move_changes s)"
    using stuck_not_empty_full[of ?g] full_not_all_empty[OF assms(2)] no_move_changes_stable[OF assms(1)]
    by blast
  ultimately show ?thesis by simp
qed

lemma addNumToRandomPoint_in:
  assumes "wellformed (gameState s)" "\<forall>d\<in>set draws. in_range (gameState s) d"
  shows "addNumToRandomPoint val draws s =
     (case find (\<lambda>d. cell_at (gameState s) d = None) draws of
        None \<Rightarrow> None
      | Some d \<Rightarrow> Some (Inr (s\<lparr>gameState := put (gameState s) d (Some val)\<rparr>)))"
  using assms(2)
proof (induction draws)
  case Nil
  then show ?case by simp
next
  case (Cons d draws)
  then have d: "in_range (gameState s) d" by simp
  then have sz: "\<not> size_g (gameState s) - 1 < 0" by (auto simp: in_range_def)
  have gi: "getItem (gameState s) (fst d) (snd d) = Inr (cell_at (gameState s) d)"
    using getItem_in[OF assms(1), of "fst d" "snd d"] d by simp
  have si: "setItem (gameState s) (fst d) (snd d) (Some val) = Inr (put (gameState s) d (Some val))"
    using setItem_in[OF assms(1), of "fst d" "snd d"] d by simp
  show ?case using Cons sz gi si by simp
qed

lemma nextMove_in:
  assumes "wellformed (gameState s)" "\<forall>d\<in>set draws. in_range (gameState s) d"
  shows "\<exists>s1. moveAllItemsInDir m s = Some (Inr s1) \<and> resolved m s s1 \<and>
     nextMove m draws s =
       (if no_empty (gameState s1)
        then Some (Inr (s1\<lparr>isGameOver := \<not> all_empty (gameState s1) \<and> no_move_changes (s1\<lparr>isGameOver := True\<rparr>)\<rparr>))
        else (case find (\<lambda>d. cell_at (gameState s1) d = None) draws of
                None \<Rightarrow> None
              | Some d \<Rightarrow> Some (Inr \<lparr>gameState = put (gameState s1) d (Some 2),
                     isGameOver = \<not> all_empty (gameState s1) \<and> no_move_changes (s1\<lparr>isGameOver := True\<rparr>)\<rparr>)))"
proof -
  from moveAllItemsInDir_spec[OF assms(1), of m] obtain s1 where
    s1: "moveAllItemsInDir m s = Some (Inr s1)" "resolved m s s1" by blast
  let ?g1 = "gameState s1"
  let ?s2 = "s1\<lparr>isGameOver := \<not> all_empty ?g1 \<and> no_move_changes (s1\<lparr>isGameOver := True\<rparr>)\<rparr>"
  have w1: "wellformed ?g1" and sz: "size_g ?g1 = size_g (gameState s)" using s1(2) by (simp_all add: resolved_def)
  have chk: "checkIfGameOver s1 = Some (Inr ?s2)" by (rule checkIfGameOver_in[OF w1])
  have gi: "getItems (gameState ?s2) (cells_xy (size_g (gameState ?s2))) = Inr (map (cell_at ?g1) (cells_xy (size_g ?g1)))"
    using getItems_cells_xy[OF w1] by simp
  have full: "list_all (\<lambda>v. v \<noteq> None) (map (cell_at ?g1) (cells_xy (size_g ?g1))) = no_empty ?g1"
    by (simp add: all_cells_xy no_empty_def)
  have dr: "\<forall>d\<in>set draws. in_range (gameState ?s2) d" using assms(2) sz by (simp add: in_range_def)
  have w2: "wellformed (gameState ?s2)" using w1 by simp
  have "nextMove m draws s = (if no_empty ?g1 then Some (Inr ?s2) else addNumToRandomPoint 2 draws ?s2)"
    unfolding nextMove_def using s1(1) chk gi full by (simp add: Let_def)
  also have "\<dots> = (if no_empty (gameState s1)
        then Some (Inr ?s2)
        else (case find (\<lambda>d. cell_at (gameState s1) d = None) draws of
                None \<Rightarrow> None
              | Some d \<Rightarrow> Some (Inr \<lparr>gameState = put (gameState s1) d (Some 2),
                     isGameOver = \<not> all_empty (gameState s1) \<and> no_move_changes (s1\<lparr>isGameOver := True\<rparr>)\<rparr>)))"
    unfolding addNumToRandomPoint_in[OF w2 dr]
    by (cases "no_empty ?g1") (auto split: option.splits)
  finally show ?thesis using s1 by blast
qed

lemma find_hit: "find P xs = Some d \<Longrightarrow> d \<in> set xs \<and> P d"
  by (induction xs) (auto split: if_splits)

lemma find_miss: "find P xs = None \<longleftrightarrow> (\<forall>d\<in>set xs. \<not> P d)"
  by (induction xs) auto

lemma getItemH_grid_of: "getItemH h ga x y = getItem (grid_of h ga) x y"
  by (auto simp: getItemH_def getItem_def grid_of_def Let_def)

lemma getItemsH_grid_of: "getItemsH h ga cs = getItems (grid_of h ga) cs"
  by (induction cs) (simp_all add: getItemH_grid_of)

lemma eq_scanH_grid_of: "eq_scanH h a b cs = eq_scan (grid_of h a) (grid_of h b) cs"
  by (induction cs) (simp_all add: getItemH_grid_of cong: if_cong)

lemma GameState_eqH_grid_of: "GameState_eqH h a b = GameState_eq (grid_of h a) (grid_of h b)"
  by (simp add: GameState_eqH_def GameState_eq_def eq_scanH_grid_of grid_of_def)

lemma size_grid_of [simp]: "size_g (grid_of h ga) = fst (grids h ga)"
  by (simp add: grid_of_def)

lemma map_fun_upd_distinct:
  assumes "distinct rs" "i < length rs"
  shows "map (f(rs ! i := w)) rs = (map f rs)[i := w]"
proof (rule nth_equalityI)
  show "length (map (f(rs ! i := w)) rs) = length ((map f rs)[i := w])" by simp
next
  fix j assume "j < length (map (f(rs ! i := w)) rs)"
  then have j: "j < length rs" by simp
  then have "rs ! j = rs ! i \<longleftrightarrow> j = i" using assms by (simp add: nth_eq_iff_index_eq)
  then show "map (f(rs ! i := w)) rs ! j = (map f rs)[i := w] ! j"
    using j by (auto simp: nth_list_update)
qed

lemma upd_only_refl: "upd_only R h h"
  by (simp add: upd_only_def)

lemma upd_only_trans: "upd_only R h h1 \<Longrightarrow> upd_only R h1 h2 \<Longrightarrow> upd_only R h h2"
  by (simp add: upd_only_def)

lemma upd_only_gs: "upd_only R h h' \<Longrightarrow> gs h' a = gs h a"
  by (simp add: upd_only_def gs_def)

lemma upd_only_rowrefs: "upd_only R h h' \<Longrightarrow> rowrefs h' ga = rowrefs h ga"
  by (simp add: upd_only_def rowrefs_def)

lemma setItemH_Inr:
  assumes d: "distinct (rowrefs h ga)" and s: "setItem (grid_of h ga) x y v = Inr g'"
  shows "\<exists>h'. setItemH h ga x y v = Inr h' \<and> grid_of h' ga = g' \<and> upd_only (set (rowrefs h ga)) h h'"
proof -
  let ?rs = "snd (grids h ga)" and ?n = "fst (grids h ga)"
  from s have a: "x \<in> set (range_py ?n) \<and> y \<in> set (range_py ?n)"
    and b: "nat y < length ?rs" "nat x < length (rows h (?rs ! nat y))"
    and g': "g' = (grid_of h ga)\<lparr>data := (data (grid_of h ga))[nat y := (data (grid_of h ga) ! nat y)[nat x := v]]\<rparr>"
    by (auto simp: setItem_def grid_of_def split: if_splits)
  let ?r = "?rs ! nat y"
  let ?h' = "h\<lparr>rows := (rows h)(?r := (rows h ?r)[nat x := v])\<rparr>"
  have 1: "setItemH h ga x y v = Inr ?h'" using a b by (simp add: setItemH_def Let_def)
  have "map (rows ?h') ?rs = (map (rows h) ?rs)[nat y := (rows h ?r)[nat x := v]]"
    using map_fun_upd_distinct[of ?rs "nat y" "rows h"] d b(1) by (simp add: rowrefs_def)
  then have 2: "grid_of ?h' ga = g'" using g' b(1) by (simp add: grid_of_def)
  have "?r \<in> set (rowrefs h ga)" using b(1) by (simp add: rowrefs_def)
  then have 3: "upd_only (set (rowrefs h ga)) h ?h'" by (auto simp: upd_only_def)
  show ?thesis using 1 2 3 by blast
qed

lemma two_writes:
  assumes d: "distinct (rowrefs h (gs h a))"
    and s1: "setItem (grid_of h (gs h a)) x y v = Inr g1" and s2: "setItem g1 x' y' v' = Inr g2"
  shows "\<exists>h2. bindE (setItemH h (gs h a) x y v) (\<lambda>h1. setItemH h1 (gs h1 a) x' y' v') = Inr h2 \<and>
           grid_of h2 (gs h a) = g2 \<and> upd_only (set (rowrefs h (gs h a))) h h2"
proof -
  let ?ga = "gs h a" and ?R = "set (rowrefs h (gs h a))"
  from setItemH_Inr[OF d s1] obtain h1 where
    h1: "setItemH h ?ga x y v = Inr h1" "grid_of h1 ?ga = g1" "upd_only ?R h h1" by blast
  have ga1: "gs h1 a = ?ga" and rr1: "rowrefs h1 ?ga = rowrefs h ?ga"
    using h1(3) by (simp_all add: upd_only_gs upd_only_rowrefs)
  have d1: "distinct (rowrefs h1 ?ga)" using d rr1 by simp
  from setItemH_Inr[OF d1, of x' y' v' g2] s2 h1(2) obtain h2 where
    h2: "setItemH h1 ?ga x' y' v' = Inr h2" "grid_of h2 ?ga = g2" "upd_only ?R h1 h2"
    using rr1 by auto
  have "bindE (setItemH h ?ga x y v) (\<lambda>h1. setItemH h1 (gs h1 a) x' y' v') = Inr h2"
    using h1(1) h2(1) ga1 by simp
  then show ?thesis using h2(2) upd_only_trans[OF h1(3) h2(3)] by blast
qed

lemma shiftOneItemToH_Inr:
  assumes d: "distinct (rowrefs h (gs h a))" and g: "grid_of h (gs h a) = gameState s"
    and r: "shiftOneItemTo s p q = Inr s'"
  shows "\<exists>h'. shiftOneItemToH a p q h = Inr h' \<and> grid_of h' (gs h a) = gameState s' \<and>
           upd_only (set (rowrefs h (gs h a))) h h'"
proof -
  let ?g = "gameState s"
  from r obtain startVal endVal where
    sv: "getItem ?g (fst p) (snd p) = Inr startVal" and ev: "getItem ?g (fst q) (snd q) = Inr endVal"
    by (auto simp: shiftOneItemTo_def bindE_def split: sum.splits)
  have gh: "getItemH h (gs h a) (fst p) (snd p) = Inr startVal" "getItemH h (gs h a) (fst q) (snd q) = Inr endVal"
    using sv ev g by (simp_all add: getItemH_grid_of)
  consider (move) "endVal = None" | (merge) "endVal \<noteq> None" "startVal = endVal"
    | (stay) "endVal \<noteq> None" "startVal \<noteq> endVal" by blast
  then show ?thesis
  proof cases
    case move
    from r sv ev move obtain g1 g2 where
      w: "setItem ?g (fst q) (snd q) startVal = Inr g1" "setItem g1 (fst p) (snd p) None = Inr g2"
      and s': "s' = s\<lparr>gameState := g2\<rparr>"
      by (auto simp: shiftOneItemTo_def bindE_def split: sum.splits)
    from two_writes[OF d, of "fst q" "snd q" startVal g1 "fst p" "snd p" None g2] w g
    obtain h2 where "bindE (setItemH h (gs h a) (fst q) (snd q) startVal)
        (\<lambda>h1. setItemH h1 (gs h1 a) (fst p) (snd p) None) = Inr h2"
      "grid_of h2 (gs h a) = g2" "upd_only (set (rowrefs h (gs h a))) h h2" by auto
    then show ?thesis using gh move s' by (auto simp: shiftOneItemToH_def)
  next
    case merge
    from r sv ev merge obtain v g1 g2 where
      pc: "plus_cell startVal endVal = Inr v"
      and w: "setItem ?g (fst q) (snd q) v = Inr g1" "setItem g1 (fst p) (snd p) None = Inr g2"
      and s': "s' = s\<lparr>gameState := g2\<rparr>"
      by (auto simp: shiftOneItemTo_def bindE_def split: sum.splits)
    from two_writes[OF d, of "fst q" "snd q" v g1 "fst p" "snd p" None g2] w g
    obtain h2 where "bindE (setItemH h (gs h a) (fst q) (snd q) v)
        (\<lambda>h1. setItemH h1 (gs h1 a) (fst p) (snd p) None) = Inr h2"
      "grid_of h2 (gs h a) = g2" "upd_only (set (rowrefs h (gs h a))) h h2" by auto
    then show ?thesis using gh merge pc s' by (auto simp: shiftOneItemToH_def)
  next
    case stay
    have "s' = s" using r sv ev stay by (auto simp: shiftOneItemTo_def)
    moreover have "shiftOneItemToH a p q h = Inr h" using gh stay by (auto simp: shiftOneItemToH_def)
    ultimately show ?thesis using g upd_only_refl by auto
  qed
qed

lemma moveItemH_Inr:
  assumes d: "distinct (rowrefs h (gs h a))" and g: "grid_of h (gs h a) = gameState s"
    and r: "moveItem m c s = Inr s'"
  shows "\<exists>h'. moveItemH m a c h = Inr h' \<and> grid_of h' (gs h a) = gameState s' \<and>
           upd_only (set (rowrefs h (gs h a))) h h'"
proof -
  from r obtain v where v: "getItem (gameState s) (fst c) (snd c) = Inr v"
    by (auto simp: moveItem_def Let_def bindE_def split: sum.splits)
  then have vh: "getItemH h (gs h a) (fst c) (snd c) = Inr v" using g by (simp add: getItemH_grid_of)
  have sz: "fst (grids h (gs h a)) = size_g (gameState s)" using g size_grid_of[of h "gs h a"] by simp
  let ?P = "\<lambda>q. shiftOneItemTo s (fst c, snd c) q = Inr s' \<and> moveItemH m a c h = shiftOneItemToH a (fst c, snd c) q h"
  have "(s' = s \<and> moveItemH m a c h = Inr h) \<or> (\<exists>q. ?P q)"
    using r v vh sz unfolding moveItem_def moveItemH_def Let_def
    by (auto split: if_splits)
  then show ?thesis
  proof
    assume "s' = s \<and> moveItemH m a c h = Inr h"
    then show ?thesis using g upd_only_refl by auto
  next
    assume "\<exists>q. ?P q"
    then obtain q where q: "?P q" ..
    from shiftOneItemToH_Inr[OF d g, of "(fst c, snd c)" q s'] q show ?thesis by auto
  qed
qed

lemma forE_moveItemH_Inr:
  assumes "distinct (rowrefs h (gs h a))" "grid_of h (gs h a) = gameState s"
    and "forE cs (moveItem m) s = Inr s'"
  shows "\<exists>h'. forE cs (moveItemH m a) h = Inr h' \<and> grid_of h' (gs h a) = gameState s' \<and>
           upd_only (set (rowrefs h (gs h a))) h h'"
  using assms
proof (induction cs arbitrary: h s)
  case Nil
  then show ?case using upd_only_refl by auto
next
  case (Cons c cs)
  from Cons.prems(3) obtain s1 where s1: "moveItem m c s = Inr s1" "forE cs (moveItem m) s1 = Inr s'"
    by (auto simp: bindE_def split: sum.splits)
  from moveItemH_Inr[OF Cons.prems(1) Cons.prems(2) s1(1)] obtain h1 where
    h1: "moveItemH m a c h = Inr h1" "grid_of h1 (gs h a) = gameState s1"
        "upd_only (set (rowrefs h (gs h a))) h h1" by blast
  have e: "gs h1 a = gs h a" "rowrefs h1 (gs h a) = rowrefs h (gs h a)"
    using h1(3) by (simp_all add: upd_only_gs upd_only_rowrefs)
  from Cons.IH[of h1 s1] Cons.prems(1) h1(2) s1(2) e obtain h' where
    h': "forE cs (moveItemH m a) h1 = Inr h'" "grid_of h' (gs h a) = gameState s'"
        "upd_only (set (rowrefs h (gs h a))) h1 h'" by auto
  have "forE (c # cs) (moveItemH m a) h = Inr h'" using h1(1) h'(1) by simp
  then show ?case using h'(2) upd_only_trans[OF h1(3) h'(3)] by blast
qed

lemma movePassH_Inr:
  assumes "distinct (rowrefs h (gs h a))" "grid_of h (gs h a) = gameState s" "movePass m s = Inr s'"
  shows "\<exists>h'. movePassH m a h = Inr h' \<and> grid_of h' (gs h a) = gameState s' \<and>
           upd_only (set (rowrefs h (gs h a))) h h'"
proof -
  have "fst (grids h (gs h a)) = size_g (gameState s)" using assms(2) size_grid_of[of h "gs h a"] by simp
  then show ?thesis
    using forE_moveItemH_Inr[OF assms(1) assms(2), of "cells_yx (size_g (gameState s))" m s'] assms(3)
    by (simp add: movePassH_def movePass_def)
qed

lemma upt_alloc: "[n..<n + Suc k] = n # [Suc n..<Suc n + k]"
proof -
  have "[n..<n + Suc k] = n # [Suc n..<n + Suc k]" by (rule upt_conv_Cons) simp
  then show ?thesis by simp
qed

lemma alloc_rows_spec:
  "alloc_rows rs h = (refs, h') \<Longrightarrow>
   refs = [lim h..<lim h + length rs] \<and> lim h' = lim h + length rs \<and> map (rows h') refs = rs \<and>
   (\<forall>r<lim h. rows h' r = rows h r) \<and> grids h' = grids h \<and> sessions h' = sessions h"
proof (induction rs arbitrary: h refs h')
  case Nil
  then show ?case by simp
next
  case (Cons row rest)
  let ?h1 = "h\<lparr>rows := (rows h)(lim h := row), lim := Suc (lim h)\<rparr>"
  obtain rs' h2 where r: "alloc_rows rest ?h1 = (rs', h2)" by (cases "alloc_rows rest ?h1")
  from Cons.IH[OF r] have ih: "rs' = [lim ?h1..<lim ?h1 + length rest]"
    "lim h2 = lim ?h1 + length rest" "map (rows h2) rs' = rest"
    "\<forall>r<lim ?h1. rows h2 r = rows ?h1 r" "grids h2 = grids ?h1" "sessions h2 = sessions ?h1"
    by blast+
  from Cons.prems r have e: "refs = lim h # rs'" "h' = h2" by (simp_all add: Let_def)
  have l1: "lim ?h1 = Suc (lim h)" by simp
  have 1: "refs = [lim h..<lim h + length (row # rest)]"
    using e(1) ih(1) upt_alloc[of "lim h" "length rest"] unfolding l1 by simp
  have 2: "lim h' = lim h + length (row # rest)" using e(2) ih(2) unfolding l1 by simp
  have "rows h2 (lim h) = row" using ih(4) unfolding l1 by simp
  then have 3: "map (rows h') refs = row # rest" using e ih(3) by simp
  have 4: "\<forall>r<lim h. rows h' r = rows h r" using e(2) ih(4) unfolding l1 by simp
  have 5: "grids h' = grids h" "sessions h' = sessions h" using e(2) ih(5) ih(6) by simp_all
  show ?case using 1 2 3 4 5 by blast
qed

lemma alloc_grid_spec:
  assumes "alloc_grid g h = (ga, h')"
  shows "lim h \<le> ga" "lim h' = Suc ga" "grid_of h' ga = g" "rowrefs h' ga = [lim h..<ga]"
    "sessions h' = sessions h" "\<forall>r<lim h. rows h' r = rows h r \<and> grids h' r = grids h r"
proof -
  obtain rs h1 where r: "alloc_rows (data g) h = (rs, h1)" by (cases "alloc_rows (data g) h")
  from alloc_rows_spec[OF r] have a: "rs = [lim h..<lim h + length (data g)]"
    "lim h1 = lim h + length (data g)" "map (rows h1) rs = data g"
    "\<forall>r<lim h. rows h1 r = rows h r" "grids h1 = grids h" "sessions h1 = sessions h" by blast+
  from assms r have e: "ga = lim h1" "h' = h1\<lparr>grids := (grids h1)(lim h1 := (size_g g, rs)), lim := Suc (lim h1)\<rparr>"
    by (auto simp: alloc_grid_def Let_def)
  show "lim h \<le> ga" "lim h' = Suc ga" "rowrefs h' ga = [lim h..<ga]" "sessions h' = sessions h"
    using e a by (simp_all add: rowrefs_def)
  show "grid_of h' ga = g" using e a(3) by (cases g) (simp add: grid_of_def)
  show "\<forall>r<lim h. rows h' r = rows h r \<and> grids h' r = grids h r" using e a by simp
qed

lemma GameState_eq_same: "wellformed a \<Longrightarrow> wellformed b \<Longrightarrow> a = b \<Longrightarrow> GameState_eq a b = Inr True"
  by (simp add: GameState_eq_wf)

lemma frame_refl: "frame R h h"
  by (simp add: frame_def)

lemma frame_trans: "frame R h h1 \<Longrightarrow> frame R h1 h2 \<Longrightarrow> frame R h h2"
  by (auto simp: frame_def)

lemma upd_only_frame: "upd_only R h h' \<Longrightarrow> frame R h h'"
  by (simp add: upd_only_def frame_def)

lemma alloc_grid_frame: "alloc_grid g h = (ga, h') \<Longrightarrow> frame R h h'"
  using alloc_grid_spec[of g h ga h'] by (simp add: frame_def)

lemma grid_of_cong:
  "grids h' ga = grids h ga \<Longrightarrow> \<forall>r\<in>set (rowrefs h ga). rows h' r = rows h r \<Longrightarrow> grid_of h' ga = grid_of h ga"
  by (simp add: grid_of_def rowrefs_def)

lemma owns_rows: "owns h ga \<Longrightarrow> r \<in> set (rowrefs h ga) \<Longrightarrow> r < lim h"
  by (simp add: owns_def list_all_iff)

lemma alloc_grid_keeps:
  assumes "alloc_grid g h = (l, h1)" "owns h ga"
  shows "grid_of h1 ga = grid_of h ga" "rowrefs h1 ga = rowrefs h ga" "owns h1 ga"
    "set (rowrefs h1 l) \<inter> set (rowrefs h ga) = {}"
proof -
  note a = alloc_grid_spec[OF assms(1)]
  have ga: "ga < lim h" using assms(2) by (simp add: owns_def)
  then have g: "grids h1 ga = grids h ga" using a(6) by simp
  then show rr: "rowrefs h1 ga = rowrefs h ga" by (simp add: rowrefs_def)
  show "grid_of h1 ga = grid_of h ga"
    using g a(6) owns_rows[OF assms(2)] by (intro grid_of_cong) auto
  show "owns h1 ga" using assms(2) rr a(1) a(2) by (auto simp: owns_def list_all_iff)
  show "set (rowrefs h1 l) \<inter> set (rowrefs h ga) = {}"
    using a(4) owns_rows[OF assms(2)] by fastforce
qed

lemma alloc_grid_gs: "alloc_grid g h = (l, h1) \<Longrightarrow> gs h1 a = gs h a"
  using alloc_grid_spec(5)[of g h l h1] by (simp add: gs_def)

lemma upd_only_keeps:
  assumes "upd_only R h h'" "owns h ga"
  shows "owns h' ga"
  using assms by (simp add: owns_def upd_only_def rowrefs_def)

lemma loop_step:
  assumes w: "wellformed (gameState s)" and g: "grid_of h (gs h a) = gameState s"
    and o: "owns h (gs h a)" and l: "grid_of h l = glast" and wl: "wellformed glast"
    and ne: "gameState s \<noteq> glast" and p: "movePass m s = Inr s1"
  shows "\<exists>h3 l'. moveLoopH m a h l = moveLoopH m a h3 l' \<and>
           moveLoop m s glast = moveLoop m s1 (gameState s) \<and>
           grid_of h3 (gs h a) = gameState s1 \<and> grid_of h3 l' = gameState s \<and>
           owns h3 (gs h a) \<and> gs h3 a = gs h a \<and> rowrefs h3 (gs h a) = rowrefs h (gs h a) \<and>
           frame (set (rowrefs h (gs h a))) h h3"
proof -
  let ?ga = "gs h a" and ?R = "set (rowrefs h (gs h a))"
  have eq: "GameState_eq (gameState s) glast = Inr False" using GameState_eq_wf[OF w wl] ne by simp
  then have eqH: "GameState_eqH h ?ga l = Inr False" using g l by (simp add: GameState_eqH_grid_of)
  obtain l' h1 where dc: "deepcopy_grid ?ga h = (l', h1)" by (cases "deepcopy_grid ?ga h")
  then have ag: "alloc_grid (gameState s) h = (l', h1)" using g by (simp add: deepcopy_grid_def)
  note k = alloc_grid_keeps[OF ag o] and a = alloc_grid_spec[OF ag] and kg = alloc_grid_gs[OF ag, of a]
  have d1: "distinct (rowrefs h1 (gs h1 a))" using k(3) kg by (simp add: owns_def)
  have g1: "grid_of h1 (gs h1 a) = gameState s" using k(1) kg g by simp
  from movePassH_Inr[OF d1 g1 p] obtain h2 where
    h2: "movePassH m a h1 = Inr h2" "grid_of h2 (gs h1 a) = gameState s1"
        "upd_only (set (rowrefs h1 (gs h1 a))) h1 h2" by blast
  have u: "upd_only ?R h1 h2" using h2(3) k(2) kg by simp
  have 1: "moveLoopH m a h l = moveLoopH m a h2 l'"
    using eqH dc h2(1) by (subst moveLoopH.simps) simp
  have 2: "moveLoop m s glast = moveLoop m s1 (gameState s)"
    using eq p by (subst moveLoop.simps) simp
  have "grids h2 l' = grids h1 l'" using u by (simp add: upd_only_def)
  moreover have "\<forall>r\<in>set (rowrefs h1 l'). rows h2 r = rows h1 r"
    using u k(4) by (auto simp: upd_only_def)
  ultimately have 3: "grid_of h2 l' = gameState s" using grid_of_cong[of h2 l' h1] a(3) by simp
  have 4: "owns h2 ?ga" "gs h2 a = ?ga" "rowrefs h2 ?ga = rowrefs h ?ga"
    using upd_only_keeps[OF u k(3)] upd_only_gs[OF u, of a] upd_only_rowrefs[OF u, of ?ga] k(2) kg
    by simp_all
  have 5: "frame ?R h h2"
    using frame_trans[OF alloc_grid_frame[OF ag] upd_only_frame[OF u]] .
  show ?thesis using 1 2 3 4 5 h2(2) kg by auto
qed

lemma moveLoopH_after_pass:
  assumes "wellformed (gameState s)" "movePass m s = Inr s1"
    and "grid_of h (gs h a) = gameState s1" "grid_of h l = gameState s" "owns h (gs h a)"
  shows "\<exists>r h'. moveLoop m s1 (gameState s) = Some (Inr r) \<and> moveLoopH m a h l = Some (Inr h') \<and>
           grid_of h' (gs h a) = gameState r \<and> frame (set (rowrefs h (gs h a))) h h'"
  using assms
proof (induction "potential m (gameState s)" arbitrary: s s1 h l rule: less_induct)
  case less
  let ?g = "gameState s" and ?ga = "gs h a"
  from movePass_spec[OF less.prems(1), of m] less.prems(2) obtain g1 where
    s1: "s1 = s\<lparr>gameState := g1\<rparr>" and ok: "step_ok m ?g g1" by auto
  have w1: "wellformed (gameState s1)" using ok s1 by (simp add: step_ok_def)
  show ?case
  proof (cases "gameState s1 = ?g")
    case True
    have "GameState_eq (gameState s1) ?g = Inr True"
      by (rule GameState_eq_same[OF w1 less.prems(1) True])
    moreover from this have "GameState_eqH h ?ga l = Inr True"
      using less.prems(3) less.prems(4) by (simp add: GameState_eqH_grid_of)
    ultimately have "moveLoop m s1 ?g = Some (Inr s1)" "moveLoopH m a h l = Some (Inr h)"
      by (subst moveLoop.simps, simp, subst moveLoopH.simps, simp)
    then show ?thesis using less.prems(3) frame_refl by blast
  next
    case False
    then have lt: "potential m (gameState s1) < potential m ?g" using ok s1 by (auto simp: step_ok_def)
    from movePass_spec[OF w1, of m] obtain s2 where s2: "movePass m s1 = Inr s2" by blast
    from loop_step[OF w1 less.prems(3) less.prems(5) less.prems(4) less.prems(1) False s2]
    obtain h3 l' where st: "moveLoopH m a h l = moveLoopH m a h3 l'"
      "moveLoop m s1 ?g = moveLoop m s2 (gameState s1)"
      "grid_of h3 ?ga = gameState s2" "grid_of h3 l' = gameState s1"
      "owns h3 ?ga" "gs h3 a = ?ga" "rowrefs h3 ?ga = rowrefs h ?ga"
      "frame (set (rowrefs h ?ga)) h h3" by blast
    have "\<exists>r h'. moveLoop m s2 (gameState s1) = Some (Inr r) \<and> moveLoopH m a h3 l' = Some (Inr h') \<and>
           grid_of h' (gs h3 a) = gameState r \<and> frame (set (rowrefs h3 (gs h3 a))) h3 h'"
      using st by (intro less.hyps[OF lt w1 s2]) simp_all
    then obtain r h' where
      r: "moveLoop m s2 (gameState s1) = Some (Inr r)" "moveLoopH m a h3 l' = Some (Inr h')"
         "grid_of h' ?ga = gameState r" "frame (set (rowrefs h ?ga)) h3 h'"
      using st(6) st(7) by auto
    show ?thesis using r st(1) st(2) frame_trans[OF st(8) r(4)] by auto
  qed
qed

lemma moveAllItemsInDirH_spec:
  assumes w: "wellformed (gameState s)" and g: "grid_of h (gs h a) = gameState s" and o: "owns h (gs h a)"
  shows "\<exists>r h'. moveAllItemsInDir m s = Some (Inr r) \<and> moveAllItemsInDirH m a h = Some (Inr h') \<and>
           grid_of h' (gs h a) = gameState r \<and> frame (set (rowrefs h (gs h a))) h h'"
proof -
  let ?ga = "gs h a" and ?R = "set (rowrefs h (gs h a))" and ?e = "GameState_init (size_g (gameState s))"
  have sz: "fst (grids h ?ga) = size_g (gameState s)" using g size_grid_of[of h ?ga] by simp
  obtain l h1 where al: "alloc_grid ?e h = (l, h1)" by (cases "alloc_grid ?e h")
  note k = alloc_grid_keeps[OF al o] and a = alloc_grid_spec[OF al] and kg = alloc_grid_gs[OF al, of a]
  have mvH: "moveAllItemsInDirH m a h = moveLoopH m a h1 l"
    using al sz by (simp add: moveAllItemsInDirH_def GameState_initH_def)
  have mv: "moveAllItemsInDir m s = moveLoop m s ?e" by (simp add: moveAllItemsInDir_def)
  have g1: "grid_of h1 (gs h1 a) = gameState s" using k(1) kg g by simp
  have o1: "owns h1 (gs h1 a)" using k(3) kg by simp
  have f1: "frame ?R h h1" by (rule alloc_grid_frame[OF al])
  show ?thesis
  proof (cases "gameState s = ?e")
    case True
    have "GameState_eq (gameState s) ?e = Inr True" by (rule GameState_eq_same[OF w wf_init True])
    moreover from this have "GameState_eqH h1 (gs h1 a) l = Inr True"
      using g1 a(3) by (simp add: GameState_eqH_grid_of)
    ultimately have "moveLoop m s ?e = Some (Inr s)" "moveLoopH m a h1 l = Some (Inr h1)"
      by (subst moveLoop.simps, simp, subst moveLoopH.simps, simp)
    then show ?thesis using mv mvH g1 kg f1 by auto
  next
    case False
    from movePass_spec[OF w, of m] obtain s1 where s1: "movePass m s = Inr s1" by blast
    from loop_step[OF w g1 o1 a(3) wf_init False s1]
    obtain h3 l' where st: "moveLoopH m a h1 l = moveLoopH m a h3 l'"
      "moveLoop m s ?e = moveLoop m s1 (gameState s)"
      "grid_of h3 (gs h1 a) = gameState s1" "grid_of h3 l' = gameState s"
      "owns h3 (gs h1 a)" "gs h3 a = gs h1 a" "rowrefs h3 (gs h1 a) = rowrefs h1 (gs h1 a)"
      "frame (set (rowrefs h1 (gs h1 a))) h1 h3" by blast
    from moveLoopH_after_pass[OF w s1, of h3 a l'] st obtain r h' where
      r: "moveLoop m s1 (gameState s) = Some (Inr r)" "moveLoopH m a h3 l' = Some (Inr h')"
         "grid_of h' (gs h3 a) = gameState r" "frame (set (rowrefs h3 (gs h3 a))) h3 h'" by auto
    have "frame ?R h1 h3" "frame ?R h3 h'" using st(8) r(4) st(6) st(7) k(2) kg by simp_all
    then have "frame ?R h h'" using f1 frame_trans by blast
    then show ?thesis using mv mvH st(1) st(2) r(1) r(2) r(3) st(6) kg by auto
  qed
qed

lemma wellformed_grid_of:
  "wellformed (grid_of h ga) \<longleftrightarrow>
     length (rowrefs h ga) = nat (fst (grids h ga)) \<and>
     (\<forall>r\<in>set (rowrefs h ga). length (rows h r) = nat (fst (grids h ga)))"
  by (simp add: wellformed_def grid_of_def rowrefs_def list_all_iff)

lemma frame_copy_ok:
  assumes f: "frame R h h'" and c: "copy_ok L h c"
  shows "copy_ok L h' c"
proof -
  let ?gc = "gs h c"
  have o: "owns h ?gc" and gc: "?gc < lim h" using c by (simp_all add: copy_ok_def owns_def)
  have g: "gs h' c = ?gc" using f by (simp add: frame_def gs_def)
  have gr: "grids h' ?gc = grids h ?gc" using f gc by (simp add: frame_def)
  then have rr: "rowrefs h' ?gc = rowrefs h ?gc" by (simp add: rowrefs_def)
  have len: "\<forall>r\<in>set (rowrefs h ?gc). length (rows h' r) = length (rows h r)"
    using f owns_rows[OF o] by (simp add: frame_def)
  have "wellformed (grid_of h' ?gc)"
    using c len gr rr by (simp add: copy_ok_def wellformed_grid_of)
  moreover have "owns h' ?gc" using o rr f by (auto simp: owns_def frame_def list_all_iff)
  ultimately show ?thesis using c g rr f by (simp add: copy_ok_def frame_def)
qed

lemma frame_old_same:
  assumes "frame R h h'" "\<forall>r\<in>R. L \<le> r" "L \<le> lim h"
  shows "old_same L h h'"
proof -
  have "r \<notin> R" if "r < L" for r using that assms(2) by auto
  then show ?thesis using assms(1) assms(3) by (simp add: frame_def old_same_def)
qed

lemma old_same_refl: "old_same L h h"
  by (simp add: old_same_def)

lemma old_same_trans: "old_same L h h1 \<Longrightarrow> old_same L h1 h2 \<Longrightarrow> old_same L h h2"
  by (simp add: old_same_def)

lemma old_same_mono: "old_same L' h h' \<Longrightarrow> L \<le> L' \<Longrightarrow> old_same L h h'"
  by (simp add: old_same_def)

lemma old_same_session:
  assumes s: "old_same (lim h) h h'" and a: "a < lim h" and o: "owns h (gs h a)"
  shows "gs h' a = gs h a" "owns h' (gs h a)" "grid_of h' (gs h a) = grid_of h (gs h a)"
proof -
  let ?ga = "gs h a"
  show "gs h' a = ?ga" using s a by (simp add: old_same_def gs_def)
  have ga: "?ga < lim h" using o by (simp add: owns_def)
  then have gr: "grids h' ?ga = grids h ?ga" using s by (simp add: old_same_def)
  then have rr: "rowrefs h' ?ga = rowrefs h ?ga" by (simp add: rowrefs_def)
  show "owns h' ?ga" using o rr s by (auto simp: owns_def old_same_def list_all_iff)
  show "grid_of h' ?ga = grid_of h ?ga"
    using gr s owns_rows[OF o] by (intro grid_of_cong) (auto simp: old_same_def)
qed

lemma old_same_copy_ok:
  assumes s: "old_same (lim h) h h'" and c: "copy_ok L h c"
  shows "copy_ok L h' c"
proof -
  have cl: "c < lim h" and o: "owns h (gs h c)" using c by (simp_all add: copy_ok_def)
  note k = old_same_session[OF s cl o]
  have "rowrefs h' (gs h c) = rowrefs h (gs h c)"
    using s o by (simp add: rowrefs_def old_same_def owns_def)
  then show ?thesis using c k s by (simp add: copy_ok_def old_same_def)
qed

lemma deepcopy_session_spec:
  assumes d: "deepcopy_session a h = (c, h')" and o: "owns h (gs h a)"
    and w: "wellformed (grid_of h (gs h a))"
  shows "copy_ok (lim h) h' c" "old_same (lim h) h h'"
proof -
  let ?g = "grid_of h (gs h a)"
  obtain gc h1 where ag: "alloc_grid ?g h = (gc, h1)" by (cases "alloc_grid ?g h")
  note a = alloc_grid_spec[OF ag]
  from d ag have e: "c = lim h1"
    "h' = h1\<lparr>sessions := (sessions h1)(lim h1 := (gc, snd (sessions h a))), lim := Suc (lim h1)\<rparr>"
    by (auto simp: deepcopy_session_def deepcopy_grid_def Let_def)
  have g: "gs h' c = gc" using e by (simp add: gs_def)
  have rr: "rowrefs h' gc = [lim h..<gc]" using e a(4) by (simp add: rowrefs_def)
  have go: "grid_of h' gc = ?g" using e a(3) by (simp add: grid_of_def)
  have "owns h' gc" using rr e a(2) by (simp add: owns_def list_all_iff)
  moreover have "list_all (\<lambda>r. lim h \<le> r) (rowrefs h' gc)" using rr by (simp add: list_all_iff)
  ultimately show "copy_ok (lim h) h' c" using g go w e a(1) a(2) by (simp add: copy_ok_def)
  show "old_same (lim h) h h'" using e a by (simp add: old_same_def)
qed

lemma copy_ok_mono: "copy_ok L' h c \<Longrightarrow> L \<le> L' \<Longrightarrow> copy_ok L h c"
  by (auto simp: copy_ok_def list_all_iff)

lemma copiesH_spec:
  assumes "copiesH k a h = (cs, h')" "a < lim h" "owns h (gs h a)" "wellformed (grid_of h (gs h a))"
  shows "list_all (copy_ok (lim h) h') cs \<and> old_same (lim h) h h' \<and> disjoint_rows h' cs \<and>
         (\<forall>c\<in>set cs. grid_of h' (gs h' c) = grid_of h (gs h a)) \<and> length cs = k"
  using assms
proof (induction k arbitrary: h cs h')
  case 0
  then show ?case by (simp add: old_same_refl)
next
  case (Suc k)
  obtain c h1 where d: "deepcopy_session a h = (c, h1)" by (cases "deepcopy_session a h")
  obtain cs' h2 where r: "copiesH k a h1 = (cs', h2)" by (cases "copiesH k a h1")
  from Suc.prems(1) d r have e: "cs = c # cs'" "h' = h2" by (simp_all add: Let_def)
  note sp = deepcopy_session_spec[OF d Suc.prems(3) Suc.prems(4)]
  note k1 = old_same_session[OF sp(2) Suc.prems(2) Suc.prems(3)]
  have l1: "lim h \<le> lim h1" using sp(2) by (simp add: old_same_def)
  have "list_all (copy_ok (lim h1) h2) cs' \<and> old_same (lim h1) h1 h2 \<and> disjoint_rows h2 cs' \<and>
         (\<forall>c\<in>set cs'. grid_of h2 (gs h2 c) = grid_of h1 (gs h1 a)) \<and> length cs' = k"
    using k1 l1 Suc.prems by (intro Suc.IH[OF r]) simp_all
  then have ih: "list_all (copy_ok (lim h1) h2) cs'" "old_same (lim h1) h1 h2" "disjoint_rows h2 cs'"
    "\<forall>c\<in>set cs'. grid_of h2 (gs h2 c) = grid_of h1 (gs h1 a)" "length cs' = k" by simp_all
  have c1: "c < lim h1" "owns h1 (gs h1 c)" "grid_of h1 (gs h1 c) = grid_of h (gs h a)"
  proof -
    show "c < lim h1" "owns h1 (gs h1 c)" using sp(1) by (simp_all add: copy_ok_def)
    obtain gc hh where ag: "alloc_grid (grid_of h (gs h a)) h = (gc, hh)"
      by (cases "alloc_grid (grid_of h (gs h a)) h")
    from d ag have "h1 = hh\<lparr>sessions := (sessions hh)(lim hh := (gc, snd (sessions h a))), lim := Suc (lim hh)\<rparr>"
      "c = lim hh" by (auto simp: deepcopy_session_def deepcopy_grid_def Let_def)
    then show "grid_of h1 (gs h1 c) = grid_of h (gs h a)"
      using alloc_grid_spec(3)[OF ag] by (simp add: gs_def grid_of_def)
  qed
  note k2 = old_same_session[OF ih(2) c1(1) c1(2)]
  have ok2: "copy_ok (lim h) h2 c"
    by (rule old_same_copy_ok[OF ih(2) sp(1)])
  have tail: "list_all (copy_ok (lim h) h2) cs'"
    using ih(1) l1 copy_ok_mono[of "lim h1" h2 _ "lim h"] by (simp add: list_all_iff)
  have "set (rowrefs h2 (gs h2 c)) \<inter> rows_of h2 cs' = {}"
  proof -
    have "\<forall>r\<in>set (rowrefs h2 (gs h2 c)). r < lim h1"
    proof -
      have "rowrefs h2 (gs h1 c) = rowrefs h1 (gs h1 c)"
        using ih(2) c1(2) by (simp add: rowrefs_def old_same_def owns_def)
      then show ?thesis using owns_rows[OF c1(2)] k2(1) by simp
    qed
    moreover have "\<forall>r\<in>rows_of h2 cs'. lim h1 \<le> r"
      using ih(1) by (auto simp: rows_of_def copy_ok_def list_all_iff)
    ultimately show ?thesis by fastforce
  qed
  moreover have "grid_of h2 (gs h2 c) = grid_of h (gs h a)" using k2 c1(3) by simp
  moreover have "\<forall>c\<in>set cs'. grid_of h2 (gs h2 c) = grid_of h (gs h a)" using ih(4) k1 by simp
  moreover have "old_same (lim h) h h2"
    using old_same_trans[OF sp(2) old_same_mono[OF ih(2) l1]] .
  ultimately show ?case using e ih(3) ih(5) ok2 tail by simp
qed

lemma frame_mono: "frame R h h' \<Longrightarrow> R \<subseteq> R' \<Longrightarrow> frame R' h h'"
  by (auto simp: frame_def)

lemma frame_gs: "frame R h h' \<Longrightarrow> gs h' c = gs h c"
  by (simp add: frame_def gs_def)

lemma frame_rowrefs: "frame R h h' \<Longrightarrow> gd < lim h \<Longrightarrow> rowrefs h' gd = rowrefs h gd"
  by (simp add: frame_def rowrefs_def)

lemma frame_grid_of:
  assumes "frame R h h'" "owns h gd" "set (rowrefs h gd) \<inter> R = {}"
  shows "grid_of h' gd = grid_of h gd"
proof (rule grid_of_cong)
  show "grids h' gd = grids h gd" using assms(1) assms(2) by (simp add: frame_def owns_def)
  show "\<forall>r\<in>set (rowrefs h gd). rows h' r = rows h r"
    using assms(1) assms(3) owns_rows[OF assms(2)] by (auto simp: frame_def)
qed

lemma frame_rows_of:
  assumes "frame R h h'" "list_all (copy_ok L h) cs"
  shows "rows_of h' cs = rows_of h cs" "disjoint_rows h' cs = disjoint_rows h cs"
proof -
  have e: "rowrefs h' (gs h' c) = rowrefs h (gs h c)" if "c \<in> set cs" for c
    using that assms frame_gs[OF assms(1), of c] frame_rowrefs[OF assms(1), of "gs h c"]
    by (simp add: list_all_iff copy_ok_def owns_def)
  then show r: "rows_of h' cs = rows_of h cs" by (simp add: rows_of_def)
  show "disjoint_rows h' cs = disjoint_rows h cs"
    using assms(2) e
  proof (induction cs)
    case Nil
    then show ?case by simp
  next
    case (Cons c cs)
    have "rows_of h' cs = rows_of h cs" using Cons.prems(2) by (simp add: rows_of_def)
    then show ?case using Cons by simp
  qed
qed

lemma simulateMovesH_spec:
  assumes "list_all (copy_ok L h) cs" "disjoint_rows h cs"
    and "\<forall>c\<in>set cs. grid_of h (gs h c) = gameState s" "wellformed (gameState s)"
    and "length ms = length cs"
  shows "\<exists>h'. simulateMovesH ms cs h = Some (Inr h') \<and> frame (rows_of h cs) h h' \<and>
           list_all2 (\<lambda>m c. \<exists>r. moveAllItemsInDir m s = Some (Inr r) \<and> grid_of h' (gs h c) = gameState r) ms cs"
  using assms
proof (induction ms cs h rule: simulateMovesH.induct)
  case (1 m ms c cs h)
  let ?gc = "gs h c" and ?Rc = "set (rowrefs h (gs h c))"
  from "1.prems"(1) have c: "copy_ok L h c" and cs: "list_all (copy_ok L h) cs" by simp_all
  have o: "owns h ?gc" using c by (simp add: copy_ok_def)
  have g: "grid_of h ?gc = gameState s" using "1.prems"(3) by simp
  have dj: "?Rc \<inter> rows_of h cs = {}" "disjoint_rows h cs" using "1.prems"(2) by simp_all
  from moveAllItemsInDirH_spec[OF "1.prems"(4) g o, of m] obtain r h1 where
    h1: "moveAllItemsInDir m s = Some (Inr r)" "moveAllItemsInDirH m c h = Some (Inr h1)"
        "grid_of h1 ?gc = gameState r" "frame ?Rc h h1" by blast
  have cs1: "list_all (copy_ok L h1) cs"
    using cs frame_copy_ok[OF h1(4)] by (simp add: list_all_iff)
  have c1: "copy_ok L h1 c" by (rule frame_copy_ok[OF h1(4) c])
  note ro = frame_rows_of[OF h1(4) cs]
  have dj1: "disjoint_rows h1 cs" using ro(2) dj(2) by simp
  have pr1: "\<forall>c'\<in>set cs. grid_of h1 (gs h1 c') = gameState s"
  proof
    fix c' assume c': "c' \<in> set cs"
    then have o': "owns h (gs h c')" using cs by (simp add: list_all_iff copy_ok_def)
    have "set (rowrefs h (gs h c')) \<inter> ?Rc = {}" using dj(1) c' by (auto simp: rows_of_def)
    from frame_grid_of[OF h1(4) o' this] show "grid_of h1 (gs h1 c') = gameState s"
      using "1.prems"(3) c' frame_gs[OF h1(4), of c'] by simp
  qed
  have len: "length ms = length cs" using "1.prems"(5) by simp
  from "1.IH"[OF cs1 dj1 pr1 "1.prems"(4) len] obtain h' where
    h': "simulateMovesH ms cs h1 = Some (Inr h')" "frame (rows_of h1 cs) h1 h'"
        "list_all2 (\<lambda>m c. \<exists>r. moveAllItemsInDir m s = Some (Inr r) \<and> grid_of h' (gs h1 c) = gameState r) ms cs"
    by blast
  have 1: "simulateMovesH (m # ms) (c # cs) h = Some (Inr h')" using h1(2) h'(1) by simp
  have f1: "frame (rows_of h (c # cs)) h h1" "frame (rows_of h (c # cs)) h1 h'"
    using frame_mono[OF h1(4), of "rows_of h (c # cs)"] frame_mono[OF h'(2), of "rows_of h (c # cs)"] ro(1)
    by (auto simp: rows_of_def)
  have 2: "frame (rows_of h (c # cs)) h h'" using frame_trans[OF f1] .
  have o1: "owns h1 ?gc" using c1 frame_gs[OF h1(4), of c] by (simp add: copy_ok_def)
  have "set (rowrefs h1 ?gc) \<inter> rows_of h1 cs = {}"
    using dj(1) ro(1) frame_rowrefs[OF h1(4), of ?gc] o by (simp add: owns_def)
  from frame_grid_of[OF h'(2) o1 this] have 3: "grid_of h' ?gc = gameState r" using h1(3) by simp
  have 4: "list_all2 (\<lambda>m c. \<exists>r. moveAllItemsInDir m s = Some (Inr r) \<and> grid_of h' (gs h c) = gameState r) ms cs"
    using h'(3) frame_gs[OF h1(4)] by simp
  show ?case using 1 2 3 4 h1(1) by auto
qed (simp_all add: frame_refl)

lemma list_all2_list_all:
  "list_all2 (\<lambda>m c. Q c = U m) ms cs \<Longrightarrow> list_all Q cs = list_all U ms"
  by (induction rule: list_all2_induct) simp_all

lemma compareAllH_wf:
  assumes "wellformed (grid_of h (gs h a))" "list_all (\<lambda>c. wellformed (grid_of h (gs h c))) cs"
  shows "compareAllH h a cs = Inr (map (\<lambda>c. grid_of h (gs h a) = grid_of h (gs h c)) cs)"
  using assms(2)
proof (induction cs)
  case Nil
  then show ?case by simp
next
  case (Cons c cs)
  then have "wellformed (grid_of h (gs h c))" by simp
  then have "GameState_eqH h (gs h a) (gs h c) = Inr (grid_of h (gs h a) = grid_of h (gs h c))"
    using GameState_eq_wf[OF assms(1)] by (simp add: GameState_eqH_grid_of)
  then show ?case using Cons by simp
qed

lemma set_isGameOver_simps [simp]:
  "rows (set_isGameOver a b h) = rows h" "grids (set_isGameOver a b h) = grids h"
  "lim (set_isGameOver a b h) = lim h" "gs (set_isGameOver a b h) c = gs h c"
  "sessions (set_isGameOver a b h) r = (if r = a then (gs h a, b) else sessions h r)"
  "grid_of (set_isGameOver a b h) ga = grid_of h ga" "rowrefs (set_isGameOver a b h) ga = rowrefs h ga"
  by (simp_all add: set_isGameOver_def gs_def grid_of_def rowrefs_def)

lemma owns_set_isGameOver [simp]: "owns (set_isGameOver a b h) ga = owns h ga"
  by (simp add: owns_def)

lemma move_through_alias_changes_grid:
  "grid_of example_heap (gs example_heap 3) = \<lparr>size_g = 2, data = [[Some 2, Some 4], [Some 4, None]]\<rparr> \<and>
   gs example_heap 4 = gs example_heap 3 \<and>
   map_option (map_sum id (\<lambda>h'. grid_of h' (gs h' 3))) (moveAllItemsInDirH down 4 example_heap)
     = Some (Inr \<lparr>size_g = 2, data = [[Some 2, None], [Some 4, Some 4]]\<rparr>)"
  by code_simp

section \<open>The claims\<close>

text \<open>
  C1. (as amended) \<^verbatim>\<open>nextMove\<close> computes the flag before the spawn step, on the grid that
  move resolution left. For a session of positive size, after \<^verbatim>\<open>nextMove\<close> has returned,
  \<^verbatim>\<open>isGameOver\<close> is true if and only if the grid that move resolution produced, before the
  spawn step, has no empty cell and none of the four moves changes it; when the flag is true
  no tile was spawned, so that grid is also the grid of the returned session.
\<close>

theorem nextMove_flag:
  assumes "wellformed (gameState s)" "0 < size_g (gameState s)" "\<forall>d\<in>set draws. in_range (gameState s) d"
    and "nextMove m draws s = Some (Inr s')"
  shows "\<exists>s1. moveAllItemsInDir m s = Some (Inr s1) \<and>
           (isGameOver s' \<longleftrightarrow> no_empty (gameState s1) \<and> no_move_changes s1) \<and>
           (isGameOver s' \<longrightarrow> gameState s' = gameState s1)"
proof -
  from nextMove_in[OF assms(1) assms(3), of m] obtain s1 where
    s1: "moveAllItemsInDir m s = Some (Inr s1)" "resolved m s s1"
    and nm: "nextMove m draws s =
       (if no_empty (gameState s1)
        then Some (Inr (s1\<lparr>isGameOver := \<not> all_empty (gameState s1) \<and> no_move_changes (s1\<lparr>isGameOver := True\<rparr>)\<rparr>))
        else (case find (\<lambda>d. cell_at (gameState s1) d = None) draws of
                None \<Rightarrow> None
              | Some d \<Rightarrow> Some (Inr \<lparr>gameState = put (gameState s1) d (Some 2),
                     isGameOver = \<not> all_empty (gameState s1) \<and> no_move_changes (s1\<lparr>isGameOver := True\<rparr>)\<rparr>)))"
    by blast
  have w1: "wellformed (gameState s1)" and sz: "0 < size_g (gameState s1)"
    using s1(2) assms(2) by (simp_all add: resolved_def)
  note fv = flag_value[OF w1 sz]
  have "(isGameOver s' \<longleftrightarrow> no_empty (gameState s1) \<and> no_move_changes s1) \<and>
        (isGameOver s' \<longrightarrow> gameState s' = gameState s1)"
  proof (cases "no_empty (gameState s1)")
    case True
    then have "s' = s1\<lparr>isGameOver := no_empty (gameState s1) \<and> no_move_changes s1\<rparr>"
      using nm assms(4) fv by simp
    then show ?thesis by simp
  next
    case False
    then obtain d where "s' = \<lparr>gameState = put (gameState s1) d (Some 2),
         isGameOver = no_empty (gameState s1) \<and> no_move_changes s1\<rparr>"
      using nm assms(4) fv by (auto split: option.splits)
    then show ?thesis using False by simp
  qed
  then show ?thesis using s1(1) by blast
qed

theorem nextMove_flag_witness:
  "wellformed (gameState \<lparr>gameState = \<lparr>size_g = 2, data = [[Some 4, Some 2], [Some 2, Some 2]]\<rparr>, isGameOver = False\<rparr>) \<and>
   0 < size_g (gameState \<lparr>gameState = \<lparr>size_g = 2, data = [[Some 4, Some 2], [Some 2, Some 2]]\<rparr>, isGameOver = False\<rparr>) \<and>
   in_range (gameState \<lparr>gameState = \<lparr>size_g = 2, data = [[Some 4, Some 2], [Some 2, Some 2]]\<rparr>, isGameOver = False\<rparr>) (0, 1) \<and>
   nextMove right [(0, 1)] \<lparr>gameState = \<lparr>size_g = 2, data = [[Some 4, Some 2], [Some 2, Some 2]]\<rparr>, isGameOver = False\<rparr>
     = Some (Inr \<lparr>gameState = \<lparr>size_g = 2, data = [[Some 4, Some 2], [Some 2, Some 4]]\<rparr>, isGameOver = False\<rparr>) \<and>
   (\<exists>s1. moveAllItemsInDir right \<lparr>gameState = \<lparr>size_g = 2, data = [[Some 4, Some 2], [Some 2, Some 2]]\<rparr>, isGameOver = False\<rparr> = Some (Inr s1) \<and>
      (isGameOver \<lparr>gameState = \<lparr>size_g = 2, data = [[Some 4, Some 2], [Some 2, Some 4]]\<rparr>, isGameOver = False\<rparr> \<longleftrightarrow> no_empty (gameState s1) \<and> no_move_changes s1) \<and>
      (isGameOver \<lparr>gameState = \<lparr>size_g = 2, data = [[Some 4, Some 2], [Some 2, Some 4]]\<rparr>, isGameOver = False\<rparr> \<longrightarrow>
         gameState \<lparr>gameState = \<lparr>size_g = 2, data = [[Some 4, Some 2], [Some 2, Some 4]]\<rparr>, isGameOver = False\<rparr> = gameState s1))"
proof -
  have w: "wellformed (gameState \<lparr>gameState = \<lparr>size_g = 2, data = [[Some 4, Some 2], [Some 2, Some 2]]\<rparr>, isGameOver = False\<rparr>)"
    by (simp add: wellformed_def)
  have z: "0 < size_g (gameState \<lparr>gameState = \<lparr>size_g = 2, data = [[Some 4, Some 2], [Some 2, Some 2]]\<rparr>, isGameOver = False\<rparr>)"
    by simp
  have d: "\<forall>d\<in>set [(0, 1)]. in_range (gameState \<lparr>gameState = \<lparr>size_g = 2, data = [[Some 4, Some 2], [Some 2, Some 2]]\<rparr>, isGameOver = False\<rparr>) d"
    by (simp add: in_range_def)
  have n: "nextMove right [(0, 1)] \<lparr>gameState = \<lparr>size_g = 2, data = [[Some 4, Some 2], [Some 2, Some 2]]\<rparr>, isGameOver = False\<rparr>
     = Some (Inr \<lparr>gameState = \<lparr>size_g = 2, data = [[Some 4, Some 2], [Some 2, Some 4]]\<rparr>, isGameOver = False\<rparr>)"
    by code_simp
  have r: "in_range (gameState \<lparr>gameState = \<lparr>size_g = 2, data = [[Some 4, Some 2], [Some 2, Some 2]]\<rparr>, isGameOver = False\<rparr>) (0, 1)"
    by (simp add: in_range_def)
  show ?thesis using w z r n nextMove_flag[OF w z d n] by blast
qed

text \<open>
  The flag need not describe the grid that \<^verbatim>\<open>nextMove\<close> returns: six moves played from a
  new session of size 2 end, after the last spawn, in the full grid \<open>[[4, 2], [2, 4]]\<close> that no
  move changes, with the flag false.
\<close>

theorem nextMove_flag_counterexample:
  "playMoves [(up, [(0, 0)]), (right, [(0, 0)]), (left, [(1, 0)]), (up, [(0, 1)]), (right, [(0, 1)]), (right, [(0, 1)])]
     (GameSession_init 2)
   = Some (Inr \<lparr>gameState = \<lparr>size_g = 2, data = [[Some 4, Some 2], [Some 2, Some 4]]\<rparr>, isGameOver = False\<rparr>) \<and>
   \<not> (isGameOver \<lparr>gameState = \<lparr>size_g = 2, data = [[Some 4, Some 2], [Some 2, Some 4]]\<rparr>, isGameOver = False\<rparr> \<longleftrightarrow>
      no_empty (gameState \<lparr>gameState = \<lparr>size_g = 2, data = [[Some 4, Some 2], [Some 2, Some 4]]\<rparr>, isGameOver = False\<rparr>) \<and>
      no_move_changes \<lparr>gameState = \<lparr>size_g = 2, data = [[Some 4, Some 2], [Some 2, Some 4]]\<rparr>, isGameOver = False\<rparr>)"
  by code_simp

text \<open>
  C2. On the grid of size 4 whose row 0 is \<open>[2, 2, 2, empty]\<close> and whose other cells are empty, move
  resolution to the left returns the grid whose row 0 is \<open>[4, 2, empty, empty]\<close>, all other cells
  still empty.
\<close>

theorem cascade_row_left:
  "moveAllItemsInDir left
     \<lparr>gameState = \<lparr>size_g = 4, data = [[Some 2, Some 2, Some 2, None], [None, None, None, None],
                                       [None, None, None, None], [None, None, None, None]]\<rparr>,
      isGameOver = False\<rparr>
   = Some (Inr \<lparr>gameState = \<lparr>size_g = 4, data = [[Some 4, Some 2, None, None], [None, None, None, None],
                                       [None, None, None, None], [None, None, None, None]]\<rparr>,
      isGameOver = False\<rparr>)"
  by code_simp

text \<open>
  C3. If a well-formed grid has an empty cell, \<^verbatim>\<open>checkIfGameOver\<close> returns and leaves the flag
  false.
\<close>

theorem checkIfGameOver_empty_cell:
  assumes "wellformed (gameState s)" "in_range (gameState s) c" "cell_at (gameState s) c = None"
  shows "\<exists>s'. checkIfGameOver s = Some (Inr s') \<and> \<not> isGameOver s'"
proof -
  have sz: "0 < size_g (gameState s)" using assms(2) by (auto simp: in_range_def)
  have "\<not> no_empty (gameState s)" using assms(2) assms(3) no_empty_iff[of "gameState s"] by blast
  then have "\<not> (\<not> all_empty (gameState s) \<and> no_move_changes (s\<lparr>isGameOver := True\<rparr>))"
    using flag_value[OF assms(1) sz] by simp
  then show ?thesis using checkIfGameOver_in[OF assms(1)] by simp
qed

theorem checkIfGameOver_empty_cell_witness:
  "wellformed (gameState \<lparr>gameState = \<lparr>size_g = 2, data = [[Some 2, Some 4], [Some 4, None]]\<rparr>, isGameOver = True\<rparr>) \<and>
   in_range (gameState \<lparr>gameState = \<lparr>size_g = 2, data = [[Some 2, Some 4], [Some 4, None]]\<rparr>, isGameOver = True\<rparr>) (1, 1) \<and>
   cell_at (gameState \<lparr>gameState = \<lparr>size_g = 2, data = [[Some 2, Some 4], [Some 4, None]]\<rparr>, isGameOver = True\<rparr>) (1, 1) = None \<and>
   (\<exists>s'. checkIfGameOver \<lparr>gameState = \<lparr>size_g = 2, data = [[Some 2, Some 4], [Some 4, None]]\<rparr>, isGameOver = True\<rparr> = Some (Inr s') \<and> \<not> isGameOver s')"
proof -
  have w: "wellformed (gameState \<lparr>gameState = \<lparr>size_g = 2, data = [[Some 2, Some 4], [Some 4, None]]\<rparr>, isGameOver = True\<rparr>)"
    by (simp add: wellformed_def)
  have r: "in_range (gameState \<lparr>gameState = \<lparr>size_g = 2, data = [[Some 2, Some 4], [Some 4, None]]\<rparr>, isGameOver = True\<rparr>) (1, 1)"
    by (simp add: in_range_def)
  have e: "cell_at (gameState \<lparr>gameState = \<lparr>size_g = 2, data = [[Some 2, Some 4], [Some 4, None]]\<rparr>, isGameOver = True\<rparr>) (1, 1) = None"
    by (simp add: cell_at_def)
  show ?thesis using w r e checkIfGameOver_empty_cell[OF w r e] by blast
qed

text \<open>
  C4. Move resolution is idempotent: on a well-formed grid it returns a session, and resolving
  the same direction again on that session returns it unchanged.
\<close>

theorem moveAllItemsInDir_idempotent:
  assumes "wellformed (gameState s)"
  shows "\<exists>r. moveAllItemsInDir m s = Some (Inr r) \<and> moveAllItemsInDir m r = Some (Inr r)"
proof -
  from moveAllItemsInDir_spec[OF assms, of m] obtain r where
    r: "moveAllItemsInDir m s = Some (Inr r)" "resolved m s r" by blast
  then have w: "wellformed (gameState r)" and st: "stable m (gameState r)" by (simp_all add: resolved_def)
  from moveAllItemsInDir_spec[OF w, of m] obtain r' where
    r': "moveAllItemsInDir m r = Some (Inr r')" "resolved m r r'" by blast
  then have "r' = r" using st by (simp add: resolved_def)
  then show ?thesis using r(1) r'(1) by simp
qed

theorem moveAllItemsInDir_idempotent_witness:
  "wellformed (gameState \<lparr>gameState = \<lparr>size_g = 2, data = [[Some 2, Some 2], [None, Some 4]]\<rparr>, isGameOver = False\<rparr>) \<and>
   (\<exists>r. moveAllItemsInDir right \<lparr>gameState = \<lparr>size_g = 2, data = [[Some 2, Some 2], [None, Some 4]]\<rparr>, isGameOver = False\<rparr> = Some (Inr r)
      \<and> moveAllItemsInDir right r = Some (Inr r))"
proof -
  have w: "wellformed (gameState \<lparr>gameState = \<lparr>size_g = 2, data = [[Some 2, Some 2], [None, Some 4]]\<rparr>, isGameOver = False\<rparr>)"
    by (simp add: wellformed_def)
  show ?thesis using w moveAllItemsInDir_idempotent[OF w, of right] by blast
qed

text \<open>
  C5. In \<^verbatim>\<open>nextMove\<close>, with draws inside the grid, move resolution returns a session; if its grid
  has no empty cell, \<^verbatim>\<open>nextMove\<close> returns that grid unchanged; otherwise \<^verbatim>\<open>nextMove\<close> returns
  exactly when some draw hits an empty cell, and whatever it returns is that grid with one cell,
  empty before, set to 2 and every other cell as it was.
\<close>

theorem nextMove_spawn:
  assumes "wellformed (gameState s)" "\<forall>d\<in>set draws. in_range (gameState s) d"
  shows "\<exists>s1. moveAllItemsInDir m s = Some (Inr s1) \<and>
     (no_empty (gameState s1) \<longrightarrow> (\<exists>s'. nextMove m draws s = Some (Inr s') \<and> gameState s' = gameState s1)) \<and>
     (\<not> no_empty (gameState s1) \<longrightarrow>
        (nextMove m draws s = None \<longleftrightarrow> (\<forall>d\<in>set draws. cell_at (gameState s1) d \<noteq> None)) \<and>
        (\<forall>res. nextMove m draws s = Some res \<longrightarrow>
           (\<exists>d s'. res = Inr s' \<and> in_range (gameState s1) d \<and> cell_at (gameState s1) d = None \<and>
              gameState s' = put (gameState s1) d (Some 2) \<and> cell_at (gameState s') d = Some 2 \<and>
              (\<forall>c. in_range (gameState s1) c \<and> c \<noteq> d \<longrightarrow> cell_at (gameState s') c = cell_at (gameState s1) c))))"
proof -
  from nextMove_in[OF assms, of m] obtain s1 where
    s1: "moveAllItemsInDir m s = Some (Inr s1)" "resolved m s s1"
    and nm: "nextMove m draws s =
       (if no_empty (gameState s1)
        then Some (Inr (s1\<lparr>isGameOver := \<not> all_empty (gameState s1) \<and> no_move_changes (s1\<lparr>isGameOver := True\<rparr>)\<rparr>))
        else (case find (\<lambda>d. cell_at (gameState s1) d = None) draws of
                None \<Rightarrow> None
              | Some d \<Rightarrow> Some (Inr \<lparr>gameState = put (gameState s1) d (Some 2),
                     isGameOver = \<not> all_empty (gameState s1) \<and> no_move_changes (s1\<lparr>isGameOver := True\<rparr>)\<rparr>)))"
    by blast
  let ?g1 = "gameState s1"
  have w1: "wellformed ?g1" and sz: "size_g ?g1 = size_g (gameState s)"
    using s1(2) by (simp_all add: resolved_def)
  have a: "no_empty ?g1 \<longrightarrow> (\<exists>s'. nextMove m draws s = Some (Inr s') \<and> gameState s' = ?g1)"
    using nm by simp
  have b: "nextMove m draws s = None \<longleftrightarrow> (\<forall>d\<in>set draws. cell_at ?g1 d \<noteq> None)" if "\<not> no_empty ?g1"
    using nm that find_miss[of "\<lambda>d. cell_at ?g1 d = None" draws] by (auto split: option.splits)
  have c: "\<exists>d s'. res = Inr s' \<and> in_range ?g1 d \<and> cell_at ?g1 d = None \<and>
              gameState s' = put ?g1 d (Some 2) \<and> cell_at (gameState s') d = Some 2 \<and>
              (\<forall>c. in_range ?g1 c \<and> c \<noteq> d \<longrightarrow> cell_at (gameState s') c = cell_at ?g1 c)"
    if ne: "\<not> no_empty ?g1" and res: "nextMove m draws s = Some res" for res
  proof -
    from nm ne res obtain d where d: "find (\<lambda>d. cell_at ?g1 d = None) draws = Some d"
      and r: "res = Inr \<lparr>gameState = put ?g1 d (Some 2),
                     isGameOver = \<not> all_empty ?g1 \<and> no_move_changes (s1\<lparr>isGameOver := True\<rparr>)\<rparr>"
      by (auto split: option.splits)
    from find_hit[OF d] have dd: "d \<in> set draws" "cell_at ?g1 d = None" by simp_all
    then have dr: "in_range ?g1 d" using assms(2) sz by (simp add: in_range_def)
    let ?s' = "\<lparr>gameState = put ?g1 d (Some 2),
                     isGameOver = \<not> all_empty ?g1 \<and> no_move_changes (s1\<lparr>isGameOver := True\<rparr>)\<rparr>"
    have "cell_at (gameState ?s') d = Some 2" using cell_put[OF w1 dr dr] by simp
    moreover have "\<forall>c. in_range ?g1 c \<and> c \<noteq> d \<longrightarrow> cell_at (gameState ?s') c = cell_at ?g1 c"
      using cell_put[OF w1 dr] by simp
    ultimately show ?thesis
      using r dr dd(2) by (intro exI[of _ d] exI[of _ ?s']) simp
  qed
  show ?thesis
  proof (rule exI[of _ s1], intro conjI impI)
    show "moveAllItemsInDir m s = Some (Inr s1)" by (rule s1(1))
  next
    assume "no_empty ?g1"
    then show "\<exists>s'. nextMove m draws s = Some (Inr s') \<and> gameState s' = ?g1" using a by simp
  next
    assume "\<not> no_empty ?g1"
    then show "nextMove m draws s = None \<longleftrightarrow> (\<forall>d\<in>set draws. cell_at ?g1 d \<noteq> None)" by (rule b)
  next
    assume ne: "\<not> no_empty ?g1"
    show "\<forall>res. nextMove m draws s = Some res \<longrightarrow>
           (\<exists>d s'. res = Inr s' \<and> in_range ?g1 d \<and> cell_at ?g1 d = None \<and>
              gameState s' = put ?g1 d (Some 2) \<and> cell_at (gameState s') d = Some 2 \<and>
              (\<forall>c. in_range ?g1 c \<and> c \<noteq> d \<longrightarrow> cell_at (gameState s') c = cell_at ?g1 c))"
    proof (intro allI impI)
      fix res assume "nextMove m draws s = Some res"
      then show "\<exists>d s'. res = Inr s' \<and> in_range ?g1 d \<and> cell_at ?g1 d = None \<and>
              gameState s' = put ?g1 d (Some 2) \<and> cell_at (gameState s') d = Some 2 \<and>
              (\<forall>c. in_range ?g1 c \<and> c \<noteq> d \<longrightarrow> cell_at (gameState s') c = cell_at ?g1 c)"
        by (rule c[OF ne])
    qed
  qed
qed

theorem nextMove_spawn_witness:
  "wellformed (gameState \<lparr>gameState = \<lparr>size_g = 2, data = [[Some 4, Some 2], [Some 2, Some 2]]\<rparr>, isGameOver = False\<rparr>) \<and>
   in_range (gameState \<lparr>gameState = \<lparr>size_g = 2, data = [[Some 4, Some 2], [Some 2, Some 2]]\<rparr>, isGameOver = False\<rparr>) (0, 1) \<and>
   (\<exists>s1. moveAllItemsInDir right \<lparr>gameState = \<lparr>size_g = 2, data = [[Some 4, Some 2], [Some 2, Some 2]]\<rparr>, isGameOver = False\<rparr> = Some (Inr s1) \<and>
     (no_empty (gameState s1) \<longrightarrow>
        (\<exists>s'. nextMove right [(0, 1)] \<lparr>gameState = \<lparr>size_g = 2, data = [[Some 4, Some 2], [Some 2, Some 2]]\<rparr>, isGameOver = False\<rparr> = Some (Inr s') \<and> gameState s' = gameState s1)) \<and>
     (\<not> no_empty (gameState s1) \<longrightarrow>
        (nextMove right [(0, 1)] \<lparr>gameState = \<lparr>size_g = 2, data = [[Some 4, Some 2], [Some 2, Some 2]]\<rparr>, isGameOver = False\<rparr> = None \<longleftrightarrow>
           (\<forall>d\<in>set [(0, 1)]. cell_at (gameState s1) d \<noteq> None)) \<and>
        (\<forall>res. nextMove right [(0, 1)] \<lparr>gameState = \<lparr>size_g = 2, data = [[Some 4, Some 2], [Some 2, Some 2]]\<rparr>, isGameOver = False\<rparr> = Some res \<longrightarrow>
           (\<exists>d s'. res = Inr s' \<and> in_range (gameState s1) d \<and> cell_at (gameState s1) d = None \<and>
              gameState s' = put (gameState s1) d (Some 2) \<and> cell_at (gameState s') d = Some 2 \<and>
              (\<forall>c. in_range (gameState s1) c \<and> c \<noteq> d \<longrightarrow> cell_at (gameState s') c = cell_at (gameState s1) c)))))"
proof -
  have w: "wellformed (gameState \<lparr>gameState = \<lparr>size_g = 2, data = [[Some 4, Some 2], [Some 2, Some 2]]\<rparr>, isGameOver = False\<rparr>)"
    by (simp add: wellformed_def)
  have d: "\<forall>d\<in>set [(0, 1)]. in_range (gameState \<lparr>gameState = \<lparr>size_g = 2, data = [[Some 4, Some 2], [Some 2, Some 2]]\<rparr>, isGameOver = False\<rparr>) d"
    by (simp add: in_range_def)
  have r: "in_range (gameState \<lparr>gameState = \<lparr>size_g = 2, data = [[Some 4, Some 2], [Some 2, Some 2]]\<rparr>, isGameOver = False\<rparr>) (0, 1)"
    by (simp add: in_range_def)
  show ?thesis using w r nextMove_spawn[OF w d, of right] by (intro conjI) assumption+
qed

text \<open>
  C6. The loop of move resolution terminates: a pass that changes the session strictly decreases
  the potential, and the loop returns, after at most as many changing passes as the potential
  of the starting grid, a session that one more pass leaves unchanged.
\<close>

theorem moveAllItemsInDir_terminates:
  assumes "wellformed (gameState s)"
  shows "(\<forall>s'. movePass m s = Inr s' \<and> s' \<noteq> s \<longrightarrow> potential m (gameState s') < potential m (gameState s)) \<and>
         (\<exists>k r. k \<le> potential m (gameState s) \<and> passes k m s = Inr r \<and> movePass m r = Inr r \<and>
                 moveAllItemsInDir m s = Some (Inr r))"
proof (intro conjI allI impI)
  fix s' assume a: "movePass m s = Inr s' \<and> s' \<noteq> s"
  from movePass_spec[OF assms, of m] obtain g' where
    g': "movePass m s = Inr (s\<lparr>gameState := g'\<rparr>)" "step_ok m (gameState s) g'" by blast
  then have "s' = s\<lparr>gameState := g'\<rparr>" using a by simp
  moreover from this have "g' \<noteq> gameState s" using a by auto
  ultimately show "potential m (gameState s') < potential m (gameState s)"
    using g'(2) by (simp add: step_ok_def)
next
  from moveAllItemsInDir_spec[OF assms, of m] obtain k r where
    r: "moveAllItemsInDir m s = Some (Inr r)" "passes k m s = Inr r" "k \<le> potential m (gameState s)"
       "resolved m s r" by blast
  then have w: "wellformed (gameState r)" and st: "stable m (gameState r)" by (simp_all add: resolved_def)
  from movePass_spec[OF w, of m] st have "movePass m r = Inr r" by auto
  then show "\<exists>k r. k \<le> potential m (gameState s) \<and> passes k m s = Inr r \<and> movePass m r = Inr r \<and>
                 moveAllItemsInDir m s = Some (Inr r)"
    using r by blast
qed

theorem moveAllItemsInDir_terminates_witness:
  "wellformed (gameState \<lparr>gameState = \<lparr>size_g = 2, data = [[Some 2, None], [Some 2, Some 4]]\<rparr>, isGameOver = False\<rparr>) \<and>
   (\<exists>k r. k \<le> potential down (gameState \<lparr>gameState = \<lparr>size_g = 2, data = [[Some 2, None], [Some 2, Some 4]]\<rparr>, isGameOver = False\<rparr>)
      \<and> passes k down \<lparr>gameState = \<lparr>size_g = 2, data = [[Some 2, None], [Some 2, Some 4]]\<rparr>, isGameOver = False\<rparr> = Inr r
      \<and> movePass down r = Inr r
      \<and> moveAllItemsInDir down \<lparr>gameState = \<lparr>size_g = 2, data = [[Some 2, None], [Some 2, Some 4]]\<rparr>, isGameOver = False\<rparr> = Some (Inr r))"
proof -
  have w: "wellformed (gameState \<lparr>gameState = \<lparr>size_g = 2, data = [[Some 2, None], [Some 2, Some 4]]\<rparr>, isGameOver = False\<rparr>)"
    by (simp add: wellformed_def)
  show ?thesis using w moveAllItemsInDir_terminates[OF w, of down] by blast
qed

text \<open>
  C7. \<^verbatim>\<open>checkIfGameOver\<close> leaves the board as it was, on the store: when the session object, its
  \<^verbatim>\<open>GameState\<close> object and its rows are allocated, the rows distinct, and the grid well formed, the
  call returns; the session still refers to the same \<^verbatim>\<open>GameState\<close> object and its grid is the grid
  before the call; every row object and every \<^verbatim>\<open>GameState\<close> object that existed before the call is
  unchanged, so the four simulated moves wrote only to the copies allocated during the call; of
  the session objects that existed, only this one may differ, and only in its flag; the flag it
  gets is the one the value-level \<^verbatim>\<open>checkIfGameOver\<close> computes.
\<close>

theorem checkIfGameOverH_frame:
  assumes a: "a < lim h0" and o: "owns h0 (gs h0 a)" and w: "wellformed (grid_of h0 (gs h0 a))"
  shows "\<exists>h'. checkIfGameOverH a h0 = Some (Inr h') \<and>
           gs h' a = gs h0 a \<and> grid_of h' (gs h' a) = grid_of h0 (gs h0 a) \<and>
           (\<forall>r<lim h0. rows h' r = rows h0 r \<and> grids h' r = grids h0 r) \<and>
           (\<forall>r<lim h0. r \<noteq> a \<longrightarrow> sessions h' r = sessions h0 r) \<and>
           checkIfGameOver \<lparr>gameState = grid_of h0 (gs h0 a), isGameOver = snd (sessions h0 a)\<rparr>
             = Some (Inr \<lparr>gameState = grid_of h' (gs h' a), isGameOver = snd (sessions h' a)\<rparr>)"
proof -
  let ?h = "set_isGameOver a True h0" and ?ga = "gs h0 a" and ?L = "lim h0"
  let ?g = "grid_of h0 (gs h0 a)"
  let ?movLs = "[up, down, left, right]"
  let ?s0 = "\<lparr>gameState = ?g, isGameOver = snd (sessions h0 a)\<rparr>"
  let ?sT = "\<lparr>gameState = ?g, isGameOver = True\<rparr>"
  have a1: "a < lim ?h" and o1: "owns ?h (gs ?h a)" and w1: "wellformed (grid_of ?h (gs ?h a))"
    using a o w by simp_all
  have gi: "getItemsH ?h (gs ?h a) (cells_xy (fst (grids ?h (gs ?h a))))
      = Inr (map (cell_at ?g) (cells_xy (fst (grids h0 ?ga))))"
    using getItems_cells_xy[OF w] by (simp add: getItemsH_grid_of)
  have ie: "list_all (\<lambda>v. v = None) (map (cell_at ?g) (cells_xy (fst (grids h0 ?ga)))) = all_empty ?g"
    by (simp add: all_cells_xy all_empty_def)
  obtain cs h1 where cp: "copiesH (length ?movLs) a ?h = (cs, h1)"
    by (cases "copiesH (length ?movLs) a ?h")
  from copiesH_spec[OF cp a1 o1 w1] have
    c1: "list_all (copy_ok ?L h1) cs" and s1: "old_same ?L ?h h1" and d1: "disjoint_rows h1 cs"
    and p1: "\<forall>c\<in>set cs. grid_of h1 (gs h1 c) = gameState ?sT" and len: "length ?movLs = length cs"
    by simp_all
  have l1: "?L \<le> lim h1" using s1 by (simp add: old_same_def)
  have wT: "wellformed (gameState ?sT)" using w by simp
  from simulateMovesH_spec[OF c1 d1 p1 wT len] obtain h2 where
    h2: "simulateMovesH ?movLs cs h1 = Some (Inr h2)" "frame (rows_of h1 cs) h1 h2"
      "list_all2 (\<lambda>m c. \<exists>r. moveAllItemsInDir m ?sT = Some (Inr r) \<and> grid_of h2 (gs h1 c) = gameState r) ?movLs cs"
    by blast
  have c2: "list_all (copy_ok ?L h2) cs" using c1 frame_copy_ok[OF h2(2)] by (simp add: list_all_iff)
  have "\<forall>r\<in>rows_of h1 cs. ?L \<le> r" using c1 by (auto simp: rows_of_def copy_ok_def list_all_iff)
  then have s12: "old_same ?L h1 h2" using frame_old_same[OF h2(2) _ l1] by simp
  have s2: "old_same (lim ?h) ?h h2" using old_same_trans[OF s1 s12] by simp
  note k = old_same_session[OF s2 a1 o1]
  have g2: "gs h2 a = ?ga" "grid_of h2 ?ga = ?g" using k by simp_all
  have w2: "wellformed (grid_of h2 (gs h2 a))" using g2 w by simp
  have wc: "list_all (\<lambda>c. wellformed (grid_of h2 (gs h2 c))) cs"
    using c2 by (simp add: list_all_iff copy_ok_def)
  have bs: "compareAllH h2 a cs = Inr (map (\<lambda>c. ?g = grid_of h2 (gs h2 c)) cs)"
    using compareAllH_wf[OF w2 wc] g2 by simp
  have "list_all2 (\<lambda>m c. (?g = grid_of h2 (gs h2 c)) = unchanged_by m ?sT) ?movLs cs"
  proof (rule list_all2_mono[OF h2(3)])
    fix m c
    assume "\<exists>r. moveAllItemsInDir m ?sT = Some (Inr r) \<and> grid_of h2 (gs h1 c) = gameState r"
    then show "(?g = grid_of h2 (gs h2 c)) = unchanged_by m ?sT"
      using frame_gs[OF h2(2), of c] by (auto simp: unchanged_by_def)
  qed
  then have nm: "list_all (\<lambda>b. b) (map (\<lambda>c. ?g = grid_of h2 (gs h2 c)) cs) = no_move_changes ?sT"
    using list_all2_list_all[of "\<lambda>c. ?g = grid_of h2 (gs h2 c)" "\<lambda>m. unchanged_by m ?sT" ?movLs cs]
    by (simp add: no_move_changes_def list_all_iff)
  let ?b = "all_empty ?g \<or> \<not> no_move_changes ?sT"
  let ?h' = "if ?b then set_isGameOver a False h2 else h2"
  have res: "checkIfGameOverH a h0 = Some (Inr ?h')"
    unfolding checkIfGameOverH_def Let_def using gi ie cp h2(1) bs nm by simp
  have old: "\<forall>r<?L. rows h2 r = rows h0 r \<and> grids h2 r = grids h0 r \<and>
      sessions h2 r = (if r = a then (?ga, True) else sessions h0 r)"
    using s2 by (simp add: old_same_def)
  have 1: "gs ?h' a = ?ga" using g2 by simp
  have 2: "grid_of ?h' (gs ?h' a) = ?g" using g2 by simp
  have 3: "\<forall>r<?L. rows ?h' r = rows h0 r \<and> grids ?h' r = grids h0 r" using old by simp
  have 4: "\<forall>r<?L. r \<noteq> a \<longrightarrow> sessions ?h' r = sessions h0 r" using old by simp
  have fl: "snd (sessions ?h' a) = (\<not> all_empty ?g \<and> no_move_changes ?sT)" using old a by auto
  have "checkIfGameOver ?s0 = Some (Inr (?s0\<lparr>isGameOver := \<not> all_empty ?g \<and> no_move_changes ?sT\<rparr>))"
    using checkIfGameOver_in[of ?s0] w by simp
  then have 5: "checkIfGameOver ?s0
      = Some (Inr \<lparr>gameState = grid_of ?h' (gs ?h' a), isGameOver = snd (sessions ?h' a)\<rparr>)"
    unfolding 2 fl by simp
  show ?thesis using res 1 2 3 4 5 by blast
qed

theorem checkIfGameOverH_frame_witness:
  "3 < lim example_heap \<and> owns example_heap (gs example_heap 3) \<and>
   wellformed (grid_of example_heap (gs example_heap 3)) \<and>
   (\<exists>h'. checkIfGameOverH 3 example_heap = Some (Inr h') \<and>
      gs h' 3 = gs example_heap 3 \<and>
      grid_of h' (gs h' 3) = grid_of example_heap (gs example_heap 3) \<and>
      (\<forall>r<lim example_heap. rows h' r = rows example_heap r \<and> grids h' r = grids example_heap r) \<and>
      (\<forall>r<lim example_heap. r \<noteq> 3 \<longrightarrow> sessions h' r = sessions example_heap r))"
proof -
  have a: "3 < lim example_heap" by (simp add: example_heap_def)
  have o: "owns example_heap (gs example_heap 3)"
    by (simp add: example_heap_def owns_def gs_def rowrefs_def)
  have w: "wellformed (grid_of example_heap (gs example_heap 3))"
    by (simp add: example_heap_def wellformed_def grid_of_def gs_def)
  show ?thesis using a o w checkIfGameOverH_frame[OF a o w] by blast
qed

text \<open>
  C8. On a well-formed grid \<^verbatim>\<open>getItem\<close> and \<^verbatim>\<open>setItem\<close> raise the assertion error when a
  coordinate is outside \<open>[0, size)\<close>; otherwise neither fails, \<^verbatim>\<open>getItem\<close> returns the content
  of the cell, and \<^verbatim>\<open>setItem\<close> returns a grid of the same size in which that cell holds the
  new value and every other read gives what it gave before.
\<close>

theorem getItem_setItem_range_check:
  assumes "wellformed g"
  shows "(\<not> in_range g (x, y) \<longrightarrow> getItem g x y = Inl AssertionError \<and> setItem g x y v = Inl AssertionError) \<and>
    (in_range g (x, y) \<longrightarrow> getItem g x y = Inr (data g ! nat y ! nat x) \<and>
       (\<exists>g'. setItem g x y v = Inr g' \<and> wellformed g' \<and> size_g g' = size_g g \<and> getItem g' x y = Inr v \<and>
          (\<forall>x' y'. (x', y') \<noteq> (x, y) \<longrightarrow> getItem g' x' y' = getItem g x' y')))"
proof (intro conjI impI)
  assume r: "in_range g (x, y)"
  show "getItem g x y = Inr (data g ! nat y ! nat x)"
    using getItem_in[OF assms r] by (simp add: cell_at_def)
  have w: "wellformed (put g (x, y) v)" by (rule wf_put[OF assms])
  have "getItem (put g (x, y) v) x' y' = getItem g x' y'" if "(x', y') \<noteq> (x, y)" for x' y'
  proof (cases "in_range g (x', y')")
    case True
    then show ?thesis using that getItem_in[OF w, of x' y'] getItem_in[OF assms True] cell_put[OF assms r True]
      by auto
  next
    case False
    then show ?thesis by (simp add: getItem_out)
  qed
  moreover have "getItem (put g (x, y) v) x y = Inr v"
    using getItem_in[OF w, of x y] r cell_put[OF assms r r] by simp
  ultimately show "\<exists>g'. setItem g x y v = Inr g' \<and> wellformed g' \<and> size_g g' = size_g g \<and> getItem g' x y = Inr v \<and>
          (\<forall>x' y'. (x', y') \<noteq> (x, y) \<longrightarrow> getItem g' x' y' = getItem g x' y')"
    using setItem_in[OF assms r] w by auto
qed (simp_all add: getItem_out setItem_out)

theorem getItem_setItem_range_check_witness:
  "wellformed \<lparr>size_g = 2, data = [[Some 2, Some 4], [None, None]]\<rparr> \<and>
   getItem \<lparr>size_g = 2, data = [[Some 2, Some 4], [None, None]]\<rparr> 1 0 = Inr (Some 4) \<and>
   getItem \<lparr>size_g = 2, data = [[Some 2, Some 4], [None, None]]\<rparr> 2 0 = Inl AssertionError \<and>
   setItem \<lparr>size_g = 2, data = [[Some 2, Some 4], [None, None]]\<rparr> 0 (- 1) (Some 2) = Inl AssertionError"
proof -
  have w: "wellformed \<lparr>size_g = 2, data = [[Some 2, Some 4], [None, None]]\<rparr>"
    by (simp add: wellformed_def)
  show ?thesis
    using w getItem_setItem_range_check[OF w, of 1 0 None]
      getItem_setItem_range_check[OF w, of 2 0 None]
      getItem_setItem_range_check[OF w, of 0 "- 1" "Some 2"]
    by (simp add: in_range_def)
qed

text \<open>
  C9. Move resolution preserves the sum of the values of the non-empty cells.
\<close>

theorem moveAllItemsInDir_preserves_sum:
  assumes "wellformed (gameState s)"
  shows "\<exists>r. moveAllItemsInDir m s = Some (Inr r) \<and> board_sum (gameState r) = board_sum (gameState s)"
  using moveAllItemsInDir_spec[OF assms, of m] by (auto simp: resolved_def)

theorem moveAllItemsInDir_preserves_sum_witness:
  "wellformed (gameState \<lparr>gameState = \<lparr>size_g = 2, data = [[Some 2, Some 2], [Some 4, None]]\<rparr>, isGameOver = False\<rparr>) \<and>
   (\<exists>r. moveAllItemsInDir left \<lparr>gameState = \<lparr>size_g = 2, data = [[Some 2, Some 2], [Some 4, None]]\<rparr>, isGameOver = False\<rparr> = Some (Inr r)
      \<and> board_sum (gameState r) = 8)"
proof -
  have w: "wellformed (gameState \<lparr>gameState = \<lparr>size_g = 2, data = [[Some 2, Some 2], [Some 4, None]]\<rparr>, isGameOver = False\<rparr>)"
    by (simp add: wellformed_def)
  have b: "board_sum (gameState \<lparr>gameState = \<lparr>size_g = 2, data = [[Some 2, Some 2], [Some 4, None]]\<rparr>, isGameOver = False\<rparr>) = 8"
    by code_simp
  show ?thesis using w b moveAllItemsInDir_preserves_sum[OF w, of left] by auto
qed

text \<open>
  C10. A new session of positive size has the flag false and every cell empty. Its first
  \<^verbatim>\<open>nextMove\<close> finds the loop condition of move resolution false at entry (the grid equals the
  empty grid), so move resolution returns the session as it is; the flag stays false and the
  first draw, which hits an empty cell, becomes the only tile, of value 2.
\<close>

theorem new_session_first_move:
  assumes "0 < n" "in_range (GameState_init n) d"
  shows "\<not> isGameOver (GameSession_init n) \<and> all_empty (gameState (GameSession_init n)) \<and>
    GameState_eq (gameState (GameSession_init n)) (GameState_init (size_g (gameState (GameSession_init n)))) = Inr True \<and>
    moveAllItemsInDir m (GameSession_init n) = Some (Inr (GameSession_init n)) \<and>
    nextMove m (d # draws) (GameSession_init n)
      = Some (Inr \<lparr>gameState = put (GameState_init n) d (Some 2), isGameOver = False\<rparr>)"
proof -
  let ?s = "GameSession_init n" and ?g = "GameState_init n"
  have gs: "gameState ?s = ?g" and fl: "\<not> isGameOver ?s" by (simp_all add: GameSession_init_def)
  have sz: "size_g ?g = n" by (simp add: GameState_init_def)
  have w: "wellformed (gameState ?s)" using wf_init[of n] gs by simp
  have ae: "all_empty ?g" by (simp add: all_empty_iff cell_init)
  have eq: "GameState_eq (gameState ?s) (GameState_init (size_g (gameState ?s))) = Inr True"
    using GameState_eq_wf[OF wf_init wf_init, of n n] by (simp add: gs sz)
  from moveAllItemsInDir_spec[OF w, of m] stable_init[of m n]
  have mv: "moveAllItemsInDir m ?s = Some (Inr ?s)" by (auto simp: resolved_def gs)
  have chk: "checkIfGameOver ?s = Some (Inr ?s)"
    using checkIfGameOver_in[OF w] ae fl by (simp add: gs)
  have gi: "getItems ?g (cells_xy n) = Inr (map (cell_at ?g) (cells_xy n))"
    using getItems_cells_xy[OF wf_init, of n] by (simp add: sz)
  have "\<not> no_empty ?g" using full_not_all_empty[of ?g] assms(1) ae sz by auto
  then have nf: "\<not> list_all (\<lambda>v. v \<noteq> None) (map (cell_at ?g) (cells_xy n))"
    by (simp add: all_cells_xy no_empty_def sz)
  have gd: "getItem ?g (fst d) (snd d) = Inr None"
    using getItem_in[OF wf_init, of n "fst d" "snd d"] assms(2) cell_init[of n d] by simp
  have sd: "setItem ?g (fst d) (snd d) (Some 2) = Inr (put ?g d (Some 2))"
    using setItem_in[OF wf_init, of n "fst d" "snd d"] assms(2) by simp
  have "addNumToRandomPoint 2 (d # draws) ?s = Some (Inr (?s\<lparr>gameState := put ?g d (Some 2)\<rparr>))"
    using gd sd assms(1) by (simp add: gs sz)
  then have "nextMove m (d # draws) ?s = Some (Inr \<lparr>gameState = put ?g d (Some 2), isGameOver = False\<rparr>)"
    unfolding nextMove_def using mv chk gi nf by (simp add: gs sz Let_def GameSession_init_def)
  then show ?thesis using fl ae eq mv gs by simp
qed

theorem new_session_first_move_witness:
  "(0::int) < 2 \<and> in_range (GameState_init 2) (1, 0) \<and>
   \<not> isGameOver (GameSession_init 2) \<and> all_empty (gameState (GameSession_init 2)) \<and>
   moveAllItemsInDir up (GameSession_init 2) = Some (Inr (GameSession_init 2)) \<and>
   nextMove up [(1, 0)] (GameSession_init 2)
     = Some (Inr \<lparr>gameState = put (GameState_init 2) (1, 0) (Some 2), isGameOver = False\<rparr>)"
proof -
  have z: "(0::int) < 2" by simp
  have r: "in_range (GameState_init 2) (1, 0)" by (simp add: in_range_def GameState_init_def)
  show ?thesis using z r new_session_first_move[OF z r, of up "[]"] by simp
qed

end
